theory Spec2Isabelle
  imports Complex_Main "HOL-Library.Log_Nat" "HOL-Library.Multiset"
begin

section \<open>JavaScript values and the object store\<close>

text \<open>
  Objects live in a store and are held by reference; \<open>JRef\<close> is such a reference.
  An object is a finite map from property names to values.  The store hands out
  addresses in increasing order, so a freshly allocated object never aliases an
  older one.
\<close>

type_synonym addr = nat

datatype js_value =
    JUndefined
  | JNull
  | JBool bool
  | JNum int
  | JStr string
  | JRef addr

type_synonym js_object = "string \<rightharpoonup> js_value"

record store =
  cells :: "addr \<rightharpoonup> js_object"
  next_addr :: addr

definition alloc :: "js_object \<Rightarrow> store \<Rightarrow> addr \<times> store" where
  "alloc obj h =
     (next_addr h, h\<lparr>cells := (cells h)(next_addr h \<mapsto> obj), next_addr := Suc (next_addr h)\<rparr>)"

text \<open>Reading an object; a dangling address reads as the empty object.\<close>

definition deref :: "store \<Rightarrow> addr \<Rightarrow> js_object" where
  "deref h a = (case cells h a of Some obj \<Rightarrow> obj | None \<Rightarrow> Map.empty)"

text \<open>
  Any change made in place to the object at address \<open>a\<close>; \<open>obj[k] = v\<close> and
  \<open>delete obj[k]\<close> are the two a program can write.
\<close>

definition mutate :: "addr \<Rightarrow> (js_object \<Rightarrow> js_object) \<Rightarrow> store \<Rightarrow> store" where
  "mutate a f h = h\<lparr>cells := (cells h)(a \<mapsto> f (deref h a))\<rparr>"

definition set_prop :: "addr \<Rightarrow> string \<Rightarrow> js_value \<Rightarrow> store \<Rightarrow> store" where
  "set_prop a k v h = mutate a (\<lambda>obj. obj(k \<mapsto> v)) h"

definition delete_prop :: "addr \<Rightarrow> string \<Rightarrow> store \<Rightarrow> store" where
  "delete_prop a k h = mutate a (\<lambda>obj. obj(k := None)) h"

definition no_properties :: js_object where
  "no_properties = Map.empty"

text \<open>The object spread \<open>{ ...a, ...b }\<close>: the keys of \<open>b\<close> win.\<close>

definition spread :: "js_object \<Rightarrow> js_object \<Rightarrow> js_object" where
  "spread a b = a ++ b"


section \<open>The client (\<open>CheckLogsClient\<close>)\<close>

text \<open>
  \<open>LogData\<close> as the type declarations give it: \<open>message\<close> is a string, the other
  fields are optional.
\<close>

record log_data =
  message :: string
  level :: "string option"
  ctxt :: "js_object option"
  source :: "string option"
  user_id :: "nat option"

datatype sdk_error =
    ValidationError string
  | ApiError string nat
  | NetworkError string

text \<open>What the HTTP layer (axios) does with a request.\<close>

datatype axios_outcome =
    Resolved string
  | RejectedResponse nat "string option"
  | RejectedRequest
  | RejectedSetup

record payload =
  p_message :: string
  p_level :: string
  p_context :: js_object
  p_source :: "string option"
  p_user_id :: "nat option"

definition valid_levels :: "string list" where
  "valid_levels = [''info'', ''warning'', ''error'', ''critical'', ''debug'']"

text \<open>
  \<open>_validateLogData\<close>, on the data the logger hands to the client: the message is a
  string, the level is set, the context is an object and \<open>user_id\<close> is a number, so
  the type tests of the source cannot fail; the remaining checks are kept in order.
  \<open>length\<close> stands for the \<open>.length\<close> of a JavaScript string.
\<close>

definition validateLogData :: "bool \<Rightarrow> payload \<Rightarrow> sdk_error option" where
  "validateLogData validatePayload d =
     (if \<not> validatePayload then None
      else if p_message d = [] then
        Some (ValidationError ''message is required and must be a string'')
      else if length (p_message d) > 1024 then
        Some (ValidationError ''message must be 1024 characters or less'')
      else if p_level d \<noteq> [] \<and> p_level d \<notin> set valid_levels then
        Some (ValidationError ''level must be one of: info, warning, error, critical, debug'')
      else if (case p_source d of None \<Rightarrow> False | Some s \<Rightarrow> s \<noteq> [] \<and> length s > 100) then
        Some (ValidationError ''source must be 100 characters or less'')
      else None)"

text \<open>\<open>_handleError\<close>: every rejection of the HTTP layer becomes an SDK error.\<close>

fun handleError :: "axios_outcome \<Rightarrow> sdk_error" where
  "handleError (RejectedResponse status msg) =
     ApiError (case msg of Some m \<Rightarrow> m | None \<Rightarrow> ''API request failed'') status"
| "handleError RejectedRequest = NetworkError ''Network request failed''"
| "handleError RejectedSetup = NetworkError ''Request setup failed''"
| "handleError (Resolved r) = NetworkError ''Request setup failed''"

text \<open>
  \<open>CheckLogsClient.log\<close>.  The result is the error or the response, together with
  the request that went out (none when validation failed first).
\<close>

definition client_log ::
  "bool \<Rightarrow> axios_outcome \<Rightarrow> payload \<Rightarrow> (sdk_error + string) \<times> payload list" where
  "client_log validatePayload http d =
     (case validateLogData validatePayload d of
        Some e \<Rightarrow> (Inl e, [])
      | None \<Rightarrow>
          (case http of
             Resolved r \<Rightarrow> (Inr r, [d])
           | _ \<Rightarrow> (Inl (handleError http), [d])))"


section \<open>The logger (\<open>CheckLogsLogger\<close>)\<close>

record retry_item =
  logData :: log_data
  retryCount :: nat
  addedAt :: nat

text \<open>A pending \<open>setTimeout\<close>: after \<open>t_delay\<close> ms, \<open>log(t_data, t_retry)\<close> runs.\<close>

record timer =
  t_delay :: nat
  t_data :: log_data
  t_retry :: nat

datatype console_stream = ConsoleError | ConsoleWarn | ConsoleDebug | ConsoleLog

datatype console_line =
    Mirror console_stream string string string js_object
  | FailureNote nat string

text \<open>
  The logger's fields, and the three things outside it that \<open>log\<close> acts on: the
  timers it has set, the console, and the requests it has sent.
\<close>

record logger =
  validatePayload :: bool
  defaultSource :: "string option"
  defaultUserId :: "nat option"
  defaultContext :: addr
  silent :: bool
  consoleOutput :: bool
  enabledLevels :: "string list"
  includeTimestamp :: bool
  includeHostname :: bool
  retryQueue :: "retry_item list"
  maxRetries :: nat
  retryDelay :: nat
  hostname :: string
  process_info :: "js_value option"
  timers :: "timer list"
  console :: "console_line list"
  posts :: "payload list"

text \<open>Truthiness of the optional fields, as \<open>x || y\<close> uses it.\<close>

definition str_or :: "string option \<Rightarrow> string option \<Rightarrow> string option" where
  "str_or a b = (case a of Some s \<Rightarrow> (if s = [] then b else Some s) | None \<Rightarrow> b)"

definition num_or :: "nat option \<Rightarrow> nat option \<Rightarrow> nat option" where
  "num_or a b = (case a of Some n \<Rightarrow> (if n = 0 then b else Some n) | None \<Rightarrow> b)"

definition level_or_info :: "log_data \<Rightarrow> string" where
  "level_or_info d = (case str_or (level d) (Some ''info'') of Some l \<Rightarrow> l | None \<Rightarrow> ''info'')"

text \<open>The options object of the constructor; every field may be absent.\<close>

record logger_options =
  o_validatePayload :: "bool option"
  o_source :: "string option"
  o_user_id :: "nat option"
  o_defaultContext :: "addr option"
  o_silent :: "bool option"
  o_consoleOutput :: "bool option"
  o_enabledLevels :: "string list option"
  o_includeTimestamp :: "bool option"
  o_includeHostname :: "bool option"

text \<open>
  The constructor.  \<open>options.defaultContext || {}\<close> keeps the reference it is
  given and allocates an empty object only when there is none.
\<close>

definition new_logger ::
  "string \<Rightarrow> js_value option \<Rightarrow> logger_options \<Rightarrow> store \<Rightarrow> logger \<times> store" where
  "new_logger host proc opts h =
     (let (ctx, h') = (case o_defaultContext opts of
                         Some a \<Rightarrow> (a, h)
                       | None \<Rightarrow> alloc Map.empty h)
      in (\<lparr>validatePayload = (o_validatePayload opts \<noteq> Some False),
           defaultSource = str_or (o_source opts) None,
           defaultUserId = num_or (o_user_id opts) None,
           defaultContext = ctx,
           silent = (o_silent opts = Some True),
           consoleOutput = (o_consoleOutput opts \<noteq> Some False),
           enabledLevels = (case o_enabledLevels opts of Some ls \<Rightarrow> ls | None \<Rightarrow> valid_levels),
           includeTimestamp = (o_includeTimestamp opts \<noteq> Some False),
           includeHostname = (o_includeHostname opts \<noteq> Some False),
           retryQueue = [],
           maxRetries = 3,
           retryDelay = 1000,
           hostname = host,
           process_info = proc,
           timers = [],
           console = [],
           posts = []\<rparr>, h'))"

text \<open>The two readings of the clock a call makes: \<open>Date.now()\<close> and the ISO string.\<close>

record clock =
  now_ms :: nat
  now_iso :: string

text \<open>
  \<open>_buildContext\<close>: a new object, the defaults overridden by the call's context,
  then the metadata.  An absent context is the empty object.
\<close>

definition buildContext :: "store \<Rightarrow> clock \<Rightarrow> logger \<Rightarrow> js_object option \<Rightarrow> js_object" where
  "buildContext h clk lg userContext =
     (let c0 = spread (deref h (defaultContext lg))
                 (case userContext of Some u \<Rightarrow> u | None \<Rightarrow> Map.empty);
          c1 = (if includeTimestamp lg then c0(''_timestamp'' \<mapsto> JStr (now_iso clk)) else c0);
          c2 = (if includeHostname lg then c1(''_hostname'' \<mapsto> JStr (hostname lg)) else c1)
      in (case process_info lg of Some p \<Rightarrow> c2(''_process'' \<mapsto> p) | None \<Rightarrow> c2))"

definition stream_of :: "string \<Rightarrow> console_stream" where
  "stream_of l =
     (if l = ''error'' \<or> l = ''critical'' then ConsoleError
      else if l = ''warning'' then ConsoleWarn
      else if l = ''debug'' then ConsoleDebug
      else ConsoleLog)"

text \<open>\<open>_consoleLog\<close>: nothing when console output is off or the logger is silent.\<close>

definition consoleLog :: "clock \<Rightarrow> string \<Rightarrow> string \<Rightarrow> js_object \<Rightarrow> logger \<Rightarrow> logger" where
  "consoleLog clk l m c lg =
     (if \<not> consoleOutput lg \<or> silent lg then lg
      else lg\<lparr>console := console lg @ [Mirror (stream_of l) (now_iso clk) l m c]\<rparr>)"

text \<open>
  The test both queue helpers use: \<open>===\<close> on the message and on the level as the
  caller gave it (an absent level equals only an absent level).
\<close>

definition same_key :: "log_data \<Rightarrow> retry_item \<Rightarrow> bool" where
  "same_key d item \<longleftrightarrow> message (logData item) = message d \<and> level (logData item) = level d"

definition key_of :: "retry_item \<Rightarrow> string \<times> string option" where
  "key_of item = (message (logData item), level (logData item))"

text \<open>
  The message and the level of a queued record as \<open>log\<close> sends it (an absent or
  empty level is sent as \<open>info\<close>), and whether every queued record has its level
  written out.
\<close>

definition sent_key :: "retry_item \<Rightarrow> string \<times> string" where
  "sent_key item = (message (logData item), level_or_info (logData item))"

definition levels_written :: "retry_item list \<Rightarrow> bool" where
  "levels_written q = list_all (\<lambda>item. str_or (level (logData item)) None \<noteq> None) q"

text \<open>\<open>_addToRetryQueue\<close>: pushes unless \<open>find\<close> returns an item.\<close>

definition addToRetryQueue :: "clock \<Rightarrow> log_data \<Rightarrow> nat \<Rightarrow> logger \<Rightarrow> logger" where
  "addToRetryQueue clk d rc lg =
     (case find (same_key d) (retryQueue lg) of
        Some existing \<Rightarrow> lg
      | None \<Rightarrow>
          lg\<lparr>retryQueue := retryQueue lg @
               [\<lparr>logData = d, retryCount = rc + 1, addedAt = now_ms clk\<rparr>]\<rparr>)"

text \<open>\<open>_removeFromRetryQueue\<close>.\<close>

definition removeFromRetryQueue :: "log_data \<Rightarrow> logger \<Rightarrow> logger" where
  "removeFromRetryQueue d lg =
     lg\<lparr>retryQueue := filter (\<lambda>item. \<not> same_key d item) (retryQueue lg)\<rparr>"

definition clearRetryQueue :: "logger \<Rightarrow> logger" where
  "clearRetryQueue lg = lg\<lparr>retryQueue := []\<rparr>"

record queue_status_item =
  s_message :: string
  s_level :: "string option"
  s_retryCount :: nat
  s_addedAt :: nat

definition getRetryQueueStatus :: "logger \<Rightarrow> nat \<times> queue_status_item list" where
  "getRetryQueueStatus lg =
     (length (retryQueue lg),
      map (\<lambda>item. \<lparr>s_message = message (logData item), s_level = level (logData item),
                     s_retryCount = retryCount item, s_addedAt = addedAt item\<rparr>)
          (retryQueue lg))"

definition setEnabledLevels :: "string list \<Rightarrow> logger \<Rightarrow> logger" where
  "setEnabledLevels levels lg = lg\<lparr>enabledLevels := levels\<rparr>"

definition enableConsole :: "logger \<Rightarrow> logger" where
  "enableConsole lg = lg\<lparr>consoleOutput := True\<rparr>"

definition disableConsole :: "logger \<Rightarrow> logger" where
  "disableConsole lg = lg\<lparr>consoleOutput := False\<rparr>"

definition enableSilent :: "logger \<Rightarrow> logger" where
  "enableSilent lg = lg\<lparr>silent := True, consoleOutput := False\<rparr>"

definition disableSilent :: "logger \<Rightarrow> logger" where
  "disableSilent lg = lg\<lparr>silent := False\<rparr>"

fun error_message :: "sdk_error \<Rightarrow> string" where
  "error_message (ValidationError m) = m"
| "error_message (ApiError m status) = m"
| "error_message (NetworkError m) = m"

datatype log_result = Skipped | Sent string | Failed sdk_error

text \<open>The \<open>enhancedData\<close> literal of \<open>log\<close>.\<close>

definition enhancedData :: "store \<Rightarrow> clock \<Rightarrow> logger \<Rightarrow> log_data \<Rightarrow> payload" where
  "enhancedData h clk lg d =
     \<lparr>p_message = message d,
      p_level = level_or_info d,
      p_context = buildContext h clk lg (ctxt d),
      p_source = str_or (source d) (defaultSource lg),
      p_user_id = num_or (user_id d) (defaultUserId lg)\<rparr>"

text \<open>The delay of the retry set after the attempt with retry count \<open>rc\<close> failed.\<close>

definition backoff :: "logger \<Rightarrow> nat \<Rightarrow> nat" where
  "backoff lg rc = retryDelay lg * 2 ^ rc"

text \<open>
  \<open>CheckLogsLogger.log(logData, retryCount)\<close>.  \<open>http\<close> is what the HTTP layer does
  with the request if one is made.  The call awaits the client once; everything
  that touches the queue and the timers comes after that await and runs without
  interruption, and nothing before it reads them, so the call is one step here
  (the settings are taken not to change while the call is in flight).
  The \<open>catch\<close> block takes every error the client throws, whatever its class.
\<close>

definition logger_log ::
  "store \<Rightarrow> clock \<Rightarrow> axios_outcome \<Rightarrow> log_data \<Rightarrow> nat \<Rightarrow> logger \<Rightarrow> log_result \<times> logger" where
  "logger_log h clk http d rc lg =
     (if level_or_info d \<notin> set (enabledLevels lg) then (Skipped, lg)
      else
        let enhanced = enhancedData h clk lg d;
            lg1 = consoleLog clk (p_level enhanced) (p_message enhanced) (p_context enhanced) lg;
            (res, sent) = client_log (validatePayload lg1) http enhanced;
            lg2 = lg1\<lparr>posts := posts lg1 @ sent\<rparr>
        in (case res of
              Inr r \<Rightarrow> (Sent r, if rc > 0 then removeFromRetryQueue d lg2 else lg2)
            | Inl e \<Rightarrow>
                let lg3 = (if rc < maxRetries lg2
                           then (let q = addToRetryQueue clk d rc lg2
                                 in q\<lparr>timers := timers q @
                                       [\<lparr>t_delay = backoff q rc, t_data = d,
                                         t_retry = rc + 1\<rparr>]\<rparr>)
                           else lg2);
                    lg4 = (if \<not> silent lg3
                           then lg3\<lparr>console := console lg3 @ [FailureNote (rc + 1) (error_message e)]\<rparr>
                           else lg3)
                in (Failed e, lg4)))"


text \<open>
  \<open>child\<close>.  The merged context is a new object; the options literal lists the
  parent's settings and \<open>...additionalOptions\<close> comes last, so every option the
  caller supplies wins, \<open>defaultContext\<close> included.  \<open>validatePayload\<close> is not
  among the listed settings, so the child takes it from \<open>additionalOptions\<close> or
  the default.  The child is built by the constructor on the same host.
\<close>

definition override :: "'a option \<Rightarrow> 'a option \<Rightarrow> 'a option" where
  "override extra own = (case extra of Some x \<Rightarrow> Some x | None \<Rightarrow> own)"

definition child ::
  "js_object \<Rightarrow> logger_options \<Rightarrow> logger \<Rightarrow> store \<Rightarrow> logger \<times> store" where
  "child additionalContext additionalOptions parent h =
     (let (mergedContext, h1) =
            alloc (spread (deref h (defaultContext parent)) additionalContext) h;
          mergedOptions =
            \<lparr>o_validatePayload = o_validatePayload additionalOptions,
             o_source = override (o_source additionalOptions) (defaultSource parent),
             o_user_id = override (o_user_id additionalOptions) (defaultUserId parent),
             o_defaultContext = override (o_defaultContext additionalOptions) (Some mergedContext),
             o_silent = override (o_silent additionalOptions) (Some (silent parent)),
             o_consoleOutput =
               override (o_consoleOutput additionalOptions) (Some (consoleOutput parent)),
             o_enabledLevels =
               override (o_enabledLevels additionalOptions) (Some (enabledLevels parent)),
             o_includeTimestamp =
               override (o_includeTimestamp additionalOptions) (Some (includeTimestamp parent)),
             o_includeHostname =
               override (o_includeHostname additionalOptions) (Some (includeHostname parent))\<rparr>
      in new_logger (hostname parent) (process_info parent) mergedOptions h1)"

definition no_options :: logger_options where
  "no_options =
     \<lparr>o_validatePayload = None, o_source = None, o_user_id = None, o_defaultContext = None,
      o_silent = None, o_consoleOutput = None, o_enabledLevels = None,
      o_includeTimestamp = None, o_includeHostname = None\<rparr>"

subsection \<open>Timers and the states a logger can be in\<close>

text \<open>
  A timer that fires leaves the list of pending timers and calls \<open>log\<close> with the
  data and the retry count it was set with.
\<close>

definition fire :: "store \<Rightarrow> clock \<Rightarrow> axios_outcome \<Rightarrow> timer \<Rightarrow> logger \<Rightarrow> logger" where
  "fire h clk http t lg =
     snd (logger_log h clk http (t_data t) (t_retry t) (lg\<lparr>timers := remove1 t (timers lg)\<rparr>))"

text \<open>
  Firing the pending timers one after the other, the earliest set first, until
  none is left; \<open>http\<close> gives the HTTP layer's answer to the attempt with a given
  retry count.  \<open>None\<close> when the fuel runs out with timers still pending.
\<close>

fun run_timers ::
  "nat \<Rightarrow> store \<Rightarrow> clock \<Rightarrow> (nat \<Rightarrow> axios_outcome) \<Rightarrow> logger \<Rightarrow> logger option" where
  "run_timers fuel h clk http lg =
     (case timers lg of
        [] \<Rightarrow> Some lg
      | t # ts \<Rightarrow>
          (case fuel of
             0 \<Rightarrow> None
           | Suc n \<Rightarrow> run_timers n h clk http (fire h clk (http (t_retry t)) t lg)))"

text \<open>
  The states of a logger: the constructor's, and what any call of a method or any
  firing of a pending timer makes of a state.  A call of \<open>log\<close> is taken with any
  data, any retry count and any answer of the HTTP layer.
\<close>

inductive reachable :: "logger \<Rightarrow> bool" where
  r_new: "reachable (fst (new_logger host proc opts h))"
| r_log: "reachable lg \<Longrightarrow> reachable (snd (logger_log h clk http d rc lg))"
| r_fire: "reachable lg \<Longrightarrow> t \<in> set (timers lg) \<Longrightarrow> reachable (fire h clk http t lg)"
| r_clear: "reachable lg \<Longrightarrow> reachable (clearRetryQueue lg)"
| r_levels: "reachable lg \<Longrightarrow> reachable (setEnabledLevels levels lg)"
| r_enableConsole: "reachable lg \<Longrightarrow> reachable (enableConsole lg)"
| r_disableConsole: "reachable lg \<Longrightarrow> reachable (disableConsole lg)"
| r_enableSilent: "reachable lg \<Longrightarrow> reachable (enableSilent lg)"
| r_disableSilent: "reachable lg \<Longrightarrow> reachable (disableSilent lg)"
| r_child: "reachable lg \<Longrightarrow> reachable (fst (child c opts lg h))"

subsection \<open>A logger and records to run the definitions on\<close>

definition store0 :: store where
  "store0 = \<lparr>cells = [0 \<mapsto> [''service'' \<mapsto> JStr ''api'']], next_addr = 1\<rparr>"

definition logger0 :: logger where
  "logger0 = fst (new_logger ''host'' None (no_options\<lparr>o_defaultContext := Some 0\<rparr>) store0)"

text \<open>Options that hand the child the parent's own context object.\<close>

definition options_alias :: logger_options where
  "options_alias = no_options\<lparr>o_defaultContext := Some (defaultContext logger0)\<rparr>"

text \<open>Two children of \<open>logger0\<close>, the second made after the first.\<close>

definition context_user :: js_object where
  "context_user = [''module'' \<mapsto> JStr ''user'']"

definition context_orders :: js_object where
  "context_orders = [''module'' \<mapsto> JStr ''orders'']"

definition child1 :: logger where
  "child1 = fst (child context_user no_options logger0 store0)"

definition store1 :: store where
  "store1 = snd (child context_user no_options logger0 store0)"

definition child2 :: logger where
  "child2 = fst (child context_orders no_options logger0 store1)"

definition store2 :: store where
  "store2 = snd (child context_orders no_options logger0 store1)"

definition clock0 :: clock where
  "clock0 = \<lparr>now_ms = 5, now_iso = ''t5''\<rparr>"

definition record0 :: log_data where
  "record0 = \<lparr>message = ''disk full'', level = Some ''error'', ctxt = None, source = None,
              user_id = None\<rparr>"

definition item0 :: retry_item where
  "item0 = \<lparr>logData = record0, retryCount = 1, addedAt = 5\<rparr>"

definition context0 :: js_object where
  "context0 = [''service'' \<mapsto> JStr ''api'', ''_timestamp'' \<mapsto> JStr ''t5'',
               ''_hostname'' \<mapsto> JStr ''host'']"

definition payload0 :: payload where
  "payload0 = \<lparr>p_message = ''disk full'', p_level = ''error'', p_context = context0,
               p_source = None, p_user_id = None\<rparr>"

text \<open>A record that fails validation: its message is empty.\<close>

definition record_bad :: log_data where
  "record_bad = \<lparr>message = [], level = None, ctxt = None, source = None, user_id = None\<rparr>"

text \<open>
  The same event logged twice, first without a level, as \<open>log({message: 'm'})\<close>,
  then with it, as \<open>info('m')\<close>; and the logger after both found no network.
\<close>

definition record_m :: log_data where
  "record_m = \<lparr>message = ''m'', level = None, ctxt = None, source = None, user_id = None\<rparr>"

definition record_m_info :: log_data where
  "record_m_info =
     \<lparr>message = ''m'', level = Some ''info'', ctxt = None, source = None, user_id = None\<rparr>"

definition logger_twice :: logger where
  "logger_twice =
     snd (logger_log store0 clock0 RejectedRequest record_m_info 0
            (snd (logger_log store0 clock0 RejectedRequest record_m 0 logger0)))"

text \<open>The logger after the first attempt to send \<open>record0\<close> found no network.\<close>

definition logger1 :: logger where
  "logger1 = snd (logger_log store0 clock0 RejectedRequest record0 0 logger0)"


section \<open>Numbers\<close>

text \<open>
  A JavaScript number is an IEEE 754 double.  A finite double is modelled as the
  rational it denotes, and an arithmetic operation as the exact operation followed
  by rounding to the nearest double, ties to the even significand (53 significant
  bits).  The exponent is not bounded here: the counts of this program stay far
  from the largest and the smallest double.

  \<open>expo x\<close> is the exponent of a positive \<open>x\<close>: \<open>2 ^ expo x \<le> x < 2 ^ (expo x + 1)\<close>;
  it is found from the bit lengths of the numerator and the denominator.
\<close>

definition expo :: "rat \<Rightarrow> int" where
  "expo x = (let (p, q) = quotient_of x;
                 d = bitlen p - bitlen q
             in if power_int 2 d \<le> x then d else d - 1)"

definition round_even :: "rat \<Rightarrow> int" where
  "round_even r = (let f = \<lfloor>r\<rfloor>; t = r - of_int f
                   in if t < 1 / 2 then f else if 1 / 2 < t then f + 1
                      else if even f then f else f + 1)"

definition fl :: "rat \<Rightarrow> rat" where
  "fl x = (if x = 0 then 0
           else let u = power_int 2 (expo \<bar>x\<bar> - 52)
                in sgn x * of_int (round_even (\<bar>x\<bar> / u)) * u)"

definition js_add :: "rat \<Rightarrow> rat \<Rightarrow> rat" where
  "js_add a b = fl (a + b)"

definition js_sub :: "rat \<Rightarrow> rat \<Rightarrow> rat" where
  "js_sub a b = fl (a - b)"

definition js_mul :: "rat \<Rightarrow> rat \<Rightarrow> rat" where
  "js_mul a b = fl (a * b)"

text \<open>
  No division of this program has a zero divisor: each is by the constant 100 or
  behind a test that the divisor is positive.
\<close>

definition js_div :: "rat \<Rightarrow> rat \<Rightarrow> rat" where
  "js_div a b = fl (a / b)"

text \<open>\<open>Math.round\<close>: the nearest integer, a tie going up.\<close>

definition Math_round :: "rat \<Rightarrow> rat" where
  "Math_round x = of_int \<lfloor>x + 1 / 2\<rfloor>"


section \<open>Statistics (\<open>CheckLogsStats\<close>)\<close>

text \<open>
  Each method fetches the statistics and computes on the list it gets; the
  functions here are the computations, on that list.
\<close>

record level_stat =
  ls_level :: string
  ls_count :: nat

record daily_stat =
  ds_date :: string
  ds_count :: nat

text \<open>\<open>Array.prototype.reduce\<close> without an initial value, on a list that is not empty.\<close>

fun reduce1 :: "('a \<Rightarrow> 'a \<Rightarrow> 'a) \<Rightarrow> 'a \<Rightarrow> 'a list \<Rightarrow> 'a" where
  "reduce1 f x xs = foldl f x xs"

text \<open>The sum \<open>reduce((sum, x) => sum + x.count, 0)\<close>.\<close>

definition js_sum :: "nat list \<Rightarrow> rat" where
  "js_sum counts = foldl (\<lambda>sum c. js_add sum (of_nat c)) 0 counts"

text \<open>
  \<open>getErrorRate\<close>.  \<open>error_step\<close> is the callback of its \<open>forEach\<close>, acting on the
  two running sums.
\<close>

definition error_step :: "rat \<times> rat \<Rightarrow> level_stat \<Rightarrow> rat \<times> rat" where
  "error_step =
     (\<lambda>(totalLogs, errorLogs) stat.
        (js_add totalLogs (of_nat (ls_count stat)),
         if ls_level stat = ''error'' \<or> ls_level stat = ''critical''
         then js_add errorLogs (of_nat (ls_count stat))
         else errorLogs))"

definition getErrorRate :: "level_stat list \<Rightarrow> rat" where
  "getErrorRate statsByLevel =
     (let (totalLogs, errorLogs) = foldl error_step (0, 0) statsByLevel
      in if totalLogs > 0 then js_mul (js_div errorLogs totalLogs) 100 else 0)"

record most_frequent =
  mf_level :: string
  mf_count :: nat
  mf_percentage :: rat

text \<open>\<open>getMostFrequentLevel\<close>; \<open>None\<close> is \<open>null\<close>.\<close>

definition getMostFrequentLevel :: "level_stat list \<Rightarrow> most_frequent option" where
  "getMostFrequentLevel statsByLevel =
     (case statsByLevel of
        [] \<Rightarrow> None
      | first # rest \<Rightarrow>
          let mostFrequent =
                reduce1 (\<lambda>max current. if ls_count current > ls_count max then current else max)
                  first rest;
              totalLogs = js_sum (map ls_count statsByLevel);
              percentage =
                (if totalLogs > 0
                 then js_mul (js_div (of_nat (ls_count mostFrequent)) totalLogs) 100 else 0)
          in Some \<lparr>mf_level = ls_level mostFrequent,
                   mf_count = ls_count mostFrequent,
                   mf_percentage = js_div (Math_round (js_mul percentage 100)) 100\<rparr>)"

text \<open>\<open>getPeakDay\<close>.\<close>

definition getPeakDay :: "daily_stat list \<Rightarrow> daily_stat option" where
  "getPeakDay dailyStats =
     (case dailyStats of
        [] \<Rightarrow> None
      | first # rest \<Rightarrow>
          Some (reduce1 (\<lambda>max current. if ds_count current > ds_count max then current else max)
                  first rest))"

datatype trend_kind = Insufficient_data | Stable | Increasing | Decreasing

record trend_analysis =
  trend :: trend_kind
  change :: rat
  last_week :: rat
  previous_week :: rat

text \<open>
  The sort of \<open>getTrend\<close>.  \<open>date_ms\<close> is the host's reading of a date string as
  milliseconds (\<open>new Date(s)\<close>), \<open>None\<close> for a string the host does not read as a
  date.  The comparator is \<open>new Date(b.date) - new Date(a.date)\<close> and
  \<open>Array.prototype.sort\<close> is stable: when every date is valid the result is in
  descending order of date, entries of equal date in their order of arrival.  With
  an invalid date the comparator returns \<open>NaN\<close> and the order is whatever the host's
  sort leaves; \<open>host_order\<close> stands for it.
\<close>

definition valid_dates :: "(string \<Rightarrow> int option) \<Rightarrow> daily_stat list \<Rightarrow> bool" where
  "valid_dates date_ms days \<longleftrightarrow> None \<notin> set (map (\<lambda>day. date_ms (ds_date day)) days)"

definition date_key :: "(string \<Rightarrow> int option) \<Rightarrow> daily_stat \<Rightarrow> int" where
  "date_key date_ms day = (case date_ms (ds_date day) of Some t \<Rightarrow> t | None \<Rightarrow> 0)"

definition sortedStats ::
  "(string \<Rightarrow> int option) \<Rightarrow> (daily_stat list \<Rightarrow> daily_stat list) \<Rightarrow> daily_stat list \<Rightarrow>
   daily_stat list" where
  "sortedStats date_ms host_order dailyStats =
     (if valid_dates date_ms dailyStats
      then sort_key (\<lambda>day. - date_key date_ms day) dailyStats
      else host_order dailyStats)"

text \<open>
  \<open>getTrend\<close>.  The class is decided on \<open>change\<close> before it is rounded for the
  result.
\<close>

definition getTrend ::
  "(string \<Rightarrow> int option) \<Rightarrow> (daily_stat list \<Rightarrow> daily_stat list) \<Rightarrow> daily_stat list \<Rightarrow>
   trend_analysis" where
  "getTrend date_ms host_order dailyStats =
     (if length dailyStats < 14
      then \<lparr>trend = Insufficient_data, change = 0, last_week = 0, previous_week = 0\<rparr>
      else
        let sorted = sortedStats date_ms host_order dailyStats;
            lastWeekLogs = js_sum (map ds_count (take 7 sorted));
            previousWeekLogs = js_sum (map ds_count (take 7 (drop 7 sorted)));
            change = (if previousWeekLogs > 0
                      then js_mul (js_div (js_sub lastWeekLogs previousWeekLogs)
                                     previousWeekLogs) 100
                      else 0);
            trend = (if \<bar>change\<bar> > 20
                     then (if change > 0 then Increasing else Decreasing)
                     else Stable)
        in \<lparr>trend = trend,
            change = js_div (Math_round (js_mul change 100)) 100,
            last_week = lastWeekLogs,
            previous_week = previousWeekLogs\<rparr>)"

subsection \<open>The quantities the description of the statistics names\<close>

text \<open>
  The entries whose level is error or critical; the sum of the counts of all
  levels, and of those, as natural numbers.
\<close>

definition error_entries :: "level_stat list \<Rightarrow> level_stat list" where
  "error_entries stats = filter (\<lambda>s. ls_level s = ''error'' \<or> ls_level s = ''critical'') stats"

definition total_count :: "level_stat list \<Rightarrow> nat" where
  "total_count stats = sum_list (map ls_count stats)"

definition error_count :: "level_stat list \<Rightarrow> nat" where
  "error_count stats = sum_list (map ls_count (error_entries stats))"

text \<open>The first entry, in the order of the list, whose count is the largest.\<close>

definition first_max :: "('a \<Rightarrow> nat) \<Rightarrow> 'a list \<Rightarrow> 'a option" where
  "first_max cnt xs = find (\<lambda>x. cnt x = Max (cnt ` set xs)) xs"

text \<open>
  A percentage \<open>part / whole * 100\<close> in the program's arithmetic; the expression
  \<open>Math.round(x * 100) / 100\<close>; and the percentage of a count in a total, 0 when the
  total is not positive.
\<close>

definition percent :: "rat \<Rightarrow> rat \<Rightarrow> rat" where
  "percent part whole = js_mul (js_div part whole) 100"

definition round2 :: "rat \<Rightarrow> rat" where
  "round2 x = js_div (Math_round (js_mul x 100)) 100"

definition percentage_of :: "nat \<Rightarrow> rat \<Rightarrow> rat" where
  "percentage_of c whole = (if whole > 0 then percent (of_nat c) whole else 0)"

text \<open>
  \<open>k\<close> is the integer nearest to \<open>y\<close>, the upper one of two equally near; and \<open>x\<close>
  rounded to two decimal places, half up, in exact arithmetic.
\<close>

definition nearest_int :: "rat \<Rightarrow> int \<Rightarrow> bool" where
  "nearest_int y k \<longleftrightarrow> of_int k - 1 / 2 \<le> y \<and> y < of_int k + 1 / 2"

definition round_half_up2 :: "rat \<Rightarrow> rat" where
  "round_half_up2 x = of_int \<lfloor>x * 100 + 1 / 2\<rfloor> / 100"

text \<open>
  The entries by descending date; the first seven of them and the seven after; the
  sums of the counts of the two weeks, as natural numbers.
\<close>

definition by_date_desc :: "(string \<Rightarrow> int option) \<Rightarrow> daily_stat list \<Rightarrow> daily_stat list" where
  "by_date_desc date_ms days = sort_key (\<lambda>day. - date_key date_ms day) days"

definition week1 :: "(string \<Rightarrow> int option) \<Rightarrow> daily_stat list \<Rightarrow> daily_stat list" where
  "week1 date_ms days = take 7 (by_date_desc date_ms days)"

definition week2 :: "(string \<Rightarrow> int option) \<Rightarrow> daily_stat list \<Rightarrow> daily_stat list" where
  "week2 date_ms days = take 7 (drop 7 (by_date_desc date_ms days))"

definition lastWeek :: "(string \<Rightarrow> int option) \<Rightarrow> daily_stat list \<Rightarrow> nat" where
  "lastWeek date_ms days = sum_list (map ds_count (week1 date_ms days))"

definition previousWeek :: "(string \<Rightarrow> int option) \<Rightarrow> daily_stat list \<Rightarrow> nat" where
  "previousWeek date_ms days = sum_list (map ds_count (week2 date_ms days))"

text \<open>The change from the previous week's sum \<open>pw\<close> to the last week's \<open>lw\<close>, and its class.\<close>

definition week_change :: "rat \<Rightarrow> rat \<Rightarrow> rat" where
  "week_change lw pw = (if pw > 0 then percent (js_sub lw pw) pw else 0)"

definition classify :: "rat \<Rightarrow> trend_kind" where
  "classify c = (if c > 20 then Increasing else if c < - 20 then Decreasing else Stable)"

subsection \<open>Lists to run the statistics on\<close>

definition levels_example :: "level_stat list" where
  "levels_example =
     [\<lparr>ls_level = ''info'', ls_count = 80\<rparr>, \<lparr>ls_level = ''error'', ls_count = 15\<rparr>,
      \<lparr>ls_level = ''critical'', ls_count = 5\<rparr>]"

text \<open>Three levels with two equal largest counts; 7 of 18 is 38.888... per cent.\<close>

definition levels_tie :: "level_stat list" where
  "levels_tie =
     [\<lparr>ls_level = ''info'', ls_count = 7\<rparr>, \<lparr>ls_level = ''error'', ls_count = 7\<rparr>,
      \<lparr>ls_level = ''debug'', ls_count = 4\<rparr>]"

text \<open>What \<open>getMostFrequentLevel\<close> returns on them.\<close>

definition most_tie :: most_frequent where
  "most_tie = \<lparr>mf_level = ''info'', mf_count = 7, mf_percentage = js_div 3889 100\<rparr>"

text \<open>Two levels; 87 of 160 is 54.375 per cent.\<close>

definition levels_half :: "level_stat list" where
  "levels_half = [\<lparr>ls_level = ''info'', ls_count = 87\<rparr>, \<lparr>ls_level = ''error'', ls_count = 73\<rparr>]"

text \<open>
  The dates of the examples are the first fourteen days of January 2024 in ISO
  form, read as the milliseconds of their midnight UTC; every other string is not
  a date.  The host order of the examples leaves a list as it is.
\<close>

definition jan2024_table :: "(string \<times> int) list" where
  "jan2024_table =
     [(''2024-01-01'', 1704067200000), (''2024-01-02'', 1704153600000),
      (''2024-01-03'', 1704240000000), (''2024-01-04'', 1704326400000),
      (''2024-01-05'', 1704412800000), (''2024-01-06'', 1704499200000),
      (''2024-01-07'', 1704585600000), (''2024-01-08'', 1704672000000),
      (''2024-01-09'', 1704758400000), (''2024-01-10'', 1704844800000),
      (''2024-01-11'', 1704931200000), (''2024-01-12'', 1705017600000),
      (''2024-01-13'', 1705104000000), (''2024-01-14'', 1705190400000)]"

definition jan2024 :: "string \<Rightarrow> int option" where
  "jan2024 s = map_of jan2024_table s"

definition host_keeps :: "daily_stat list \<Rightarrow> daily_stat list" where
  "host_keeps days = days"

definition day :: "string \<Rightarrow> nat \<Rightarrow> daily_stat" where
  "day d c = \<lparr>ds_date = d, ds_count = c\<rparr>"

text \<open>Fourteen days, not in order: the last seven sum to 140, the seven before to 100.\<close>

definition days14 :: "daily_stat list" where
  "days14 =
     [day ''2024-01-03'' 10, day ''2024-01-14'' 20, day ''2024-01-01'' 10,
      day ''2024-01-13'' 20, day ''2024-01-02'' 10, day ''2024-01-12'' 20,
      day ''2024-01-04'' 10, day ''2024-01-11'' 20, day ''2024-01-05'' 20,
      day ''2024-01-10'' 20, day ''2024-01-06'' 20, day ''2024-01-09'' 20,
      day ''2024-01-07'' 20, day ''2024-01-08'' 20]"

text \<open>Fourteen days: the last seven sum to 120004, the seven before to 100000.\<close>

definition days_boundary :: "daily_stat list" where
  "days_boundary =
     [day ''2024-01-14'' 17144, day ''2024-01-13'' 17144, day ''2024-01-12'' 17144,
      day ''2024-01-11'' 17143, day ''2024-01-10'' 17143, day ''2024-01-09'' 17143,
      day ''2024-01-08'' 17143, day ''2024-01-07'' 14286, day ''2024-01-06'' 14286,
      day ''2024-01-05'' 14286, day ''2024-01-04'' 14286, day ''2024-01-03'' 14286,
      day ''2024-01-02'' 14285, day ''2024-01-01'' 14285]"

text \<open>
  Fourteen days: the last seven sum to 183, the seven before to 160, a change of
  14.375 per cent.
\<close>

definition days_half :: "daily_stat list" where
  "days_half =
     [day ''2024-01-14'' 27, day ''2024-01-13'' 26, day ''2024-01-12'' 26,
      day ''2024-01-11'' 26, day ''2024-01-10'' 26, day ''2024-01-09'' 26,
      day ''2024-01-08'' 26, day ''2024-01-07'' 23, day ''2024-01-06'' 23,
      day ''2024-01-05'' 23, day ''2024-01-04'' 23, day ''2024-01-03'' 23,
      day ''2024-01-02'' 23, day ''2024-01-01'' 22]"

text \<open>Three days with two equal largest counts.\<close>

definition days_tie :: "daily_stat list" where
  "days_tie = [day ''2024-01-01'' 5, day ''2024-01-02'' 7, day ''2024-01-03'' 7]"


section \<open>Properties of the logger\<close>

subsection \<open>What one call of \<open>log\<close> does to the logger\<close>

lemma consoleLog_fields [simp]:
  "retryQueue (consoleLog clk l m c lg) = retryQueue lg"
  "timers (consoleLog clk l m c lg) = timers lg"
  "posts (consoleLog clk l m c lg) = posts lg"
  "maxRetries (consoleLog clk l m c lg) = maxRetries lg"
  "retryDelay (consoleLog clk l m c lg) = retryDelay lg"
  "validatePayload (consoleLog clk l m c lg) = validatePayload lg"
  "enabledLevels (consoleLog clk l m c lg) = enabledLevels lg"
  "silent (consoleLog clk l m c lg) = silent lg"
  by (simp_all add: consoleLog_def)

lemma addToRetryQueue_fields [simp]:
  "timers (addToRetryQueue clk d rc lg) = timers lg"
  "posts (addToRetryQueue clk d rc lg) = posts lg"
  "maxRetries (addToRetryQueue clk d rc lg) = maxRetries lg"
  "retryDelay (addToRetryQueue clk d rc lg) = retryDelay lg"
  "enabledLevels (addToRetryQueue clk d rc lg) = enabledLevels lg"
  "silent (addToRetryQueue clk d rc lg) = silent lg"
  "console (addToRetryQueue clk d rc lg) = console lg"
  by (simp_all add: addToRetryQueue_def split: option.splits)

lemma addToRetryQueue_queue:
  "retryQueue (addToRetryQueue clk d rc lg) =
     (if find (same_key d) (retryQueue lg) = None
      then retryQueue lg @ [\<lparr>logData = d, retryCount = rc + 1, addedAt = now_ms clk\<rparr>]
      else retryQueue lg)"
  by (simp add: addToRetryQueue_def split: option.splits)

lemma backoff_addToRetryQueue [simp]: "backoff (addToRetryQueue clk d rc lg) k = backoff lg k"
  by (simp add: backoff_def)

lemma find_after_add: "find (same_key d) (retryQueue (addToRetryQueue clk d rc lg)) \<noteq> None"
proof (cases "find (same_key d) (retryQueue lg)")
  case None
  have "same_key d \<lparr>logData = d, retryCount = rc + 1, addedAt = now_ms clk\<rparr>"
    by (simp add: same_key_def)
  then show ?thesis
    by (simp add: addToRetryQueue_queue None find_None_iff) blast
next
  case (Some a)
  then show ?thesis by (simp add: addToRetryQueue_queue)
qed

lemma log_sent:
  assumes "logger_log h clk http d rc lg = (Sent r, lg')"
  shows "retryQueue lg' =
           (if rc > 0 then filter (\<lambda>item. \<not> same_key d item) (retryQueue lg) else retryQueue lg)"
    and "timers lg' = timers lg"
  using assms
  by (auto simp: logger_log_def Let_def removeFromRetryQueue_def
      split: if_splits prod.splits sum.splits)

lemma log_failed:
  assumes "logger_log h clk http d rc lg = (Failed e, lg')"
  shows "retryQueue lg' =
           (if rc < maxRetries lg then retryQueue (addToRetryQueue clk d rc lg) else retryQueue lg)"
    and "timers lg' =
           (if rc < maxRetries lg
            then timers lg @ [\<lparr>t_delay = backoff lg rc, t_data = d, t_retry = rc + 1\<rparr>]
            else timers lg)"
  using assms
  by (auto simp: logger_log_def Let_def addToRetryQueue_queue backoff_def
      split: if_splits prod.splits sum.splits)

lemma log_validation_failure:
  assumes "level_or_info d \<in> set (enabledLevels lg)"
    and "validateLogData (validatePayload lg) (enhancedData h clk lg d) = Some e"
  shows "fst (logger_log h clk http d rc lg) = Failed e"
    and "posts (snd (logger_log h clk http d rc lg)) = posts lg"
  using assms
  by (auto simp: logger_log_def Let_def client_log_def split: if_splits prod.splits sum.splits)

lemma log_keeps_config:
  "enabledLevels (snd (logger_log h clk http d rc lg)) = enabledLevels lg"
  "maxRetries (snd (logger_log h clk http d rc lg)) = maxRetries lg"
  "retryDelay (snd (logger_log h clk http d rc lg)) = retryDelay lg"
  by (auto simp: logger_log_def Let_def removeFromRetryQueue_def split: prod.splits sum.splits)

lemma client_log_rejected:
  "\<forall>r. http \<noteq> Resolved r \<Longrightarrow> \<exists>e. fst (client_log vp http x) = Inl e"
  by (cases http) (auto simp: client_log_def split: option.splits)

lemma log_rejected:
  assumes "level_or_info d \<in> set (enabledLevels lg)" and "\<forall>r. http \<noteq> Resolved r"
  shows "\<exists>e. fst (logger_log h clk http d rc lg) = Failed e"
proof -
  obtain e where "fst (client_log (validatePayload lg) http (enhancedData h clk lg d)) = Inl e"
    using client_log_rejected [OF assms(2)] by blast
  then show ?thesis using assms(1)
    by (auto simp: logger_log_def Let_def split: prod.splits sum.splits)
qed

subsection \<open>The logger and the records of the examples, evaluated\<close>

lemma logger0_eq:
  "logger0 = \<lparr>validatePayload = True, defaultSource = None, defaultUserId = None,
     defaultContext = 0, silent = False, consoleOutput = True, enabledLevels = valid_levels,
     includeTimestamp = True, includeHostname = True, retryQueue = [], maxRetries = 3,
     retryDelay = 1000, hostname = ''host'', process_info = None, timers = [], console = [],
     posts = []\<rparr>"
  by (simp add: logger0_def new_logger_def no_options_def str_or_def num_or_def)

lemma buildContext_store0:
  "defaultContext lg = 0 \<Longrightarrow> includeTimestamp lg \<Longrightarrow> includeHostname lg \<Longrightarrow>
   process_info lg = None \<Longrightarrow>
   buildContext store0 clk lg None =
     [''service'' \<mapsto> JStr ''api'', ''_timestamp'' \<mapsto> JStr (now_iso clk),
      ''_hostname'' \<mapsto> JStr (hostname lg)]"
  by (simp add: buildContext_def store0_def deref_def spread_def)

lemmas eval_simps = logger_log_def enhancedData_def backoff_def Let_def consoleLog_def
  client_log_def validateLogData_def level_or_info_def str_or_def num_or_def record0_def
  valid_levels_def addToRetryQueue_def removeFromRetryQueue_def same_key_def stream_of_def
  clock0_def buildContext_store0

lemma logger1_eq:
  "logger1 = logger0\<lparr>retryQueue := [item0],
     timers := [\<lparr>t_delay = 1000, t_data = record0, t_retry = 1\<rparr>],
     console := [Mirror ConsoleError ''t5'' ''error'' ''disk full'' context0,
                 FailureNote 1 ''Network request failed''],
     posts := [payload0]\<rparr>"
  unfolding logger1_def
  by (simp add: eval_simps logger0_eq item0_def payload0_def context0_def)

lemma reachable_logger0: "reachable logger0"
  unfolding logger0_def by (rule r_new)

lemma reachable_logger1: "reachable logger1"
  unfolding logger1_def by (rule r_log [OF reachable_logger0])


subsection \<open>Disabled levels\<close>

text \<open>
  C10.  A call whose level (\<open>info\<close> when absent) is not among the enabled levels
  returns the skipped result and leaves the logger, the timers, the console and
  the list of requests sent exactly as they were: no request, no console line,
  the same retry queue.
\<close>

theorem log_level_disabled:
  "level_or_info d \<notin> set (enabledLevels lg) \<Longrightarrow>
     logger_log h clk http d rc lg = (Skipped, lg)"
  by (simp add: logger_log_def)

theorem log_level_disabled_witness:
  "level_or_info record0 \<notin> set (enabledLevels (setEnabledLevels [''info''] logger0)) \<and>
   logger_log store0 clock0 RejectedRequest record0 0 (setEnabledLevels [''info''] logger0)
     = (Skipped, setEnabledLevels [''info''] logger0)"
  using log_level_disabled [of record0 "setEnabledLevels [''info''] logger0" store0 clock0
      RejectedRequest 0]
  by (simp add: level_or_info_def str_or_def record0_def setEnabledLevels_def)


subsection \<open>One item per identity key\<close>

lemma key_of_same: "same_key d item \<longleftrightarrow> key_of item = (message d, level d)"
  by (auto simp: same_key_def key_of_def)

lemma add_keeps_distinct:
  "distinct (map key_of (retryQueue lg)) \<Longrightarrow>
   distinct (map key_of (retryQueue (addToRetryQueue clk d rc lg)))"
  by (auto simp: addToRetryQueue_def find_None_iff key_of_same key_of_def split: option.splits)

lemma remove_keeps_distinct:
  "distinct (map key_of (retryQueue lg)) \<Longrightarrow>
   distinct (map key_of (retryQueue (removeFromRetryQueue d lg)))"
  by (simp add: removeFromRetryQueue_def distinct_map_filter)

lemma log_keeps_distinct:
  "distinct (map key_of (retryQueue lg)) \<Longrightarrow>
   distinct (map key_of (retryQueue (snd (logger_log h clk http d rc lg))))"
  by (auto simp: logger_log_def Let_def add_keeps_distinct remove_keeps_distinct
      split: prod.splits sum.splits)

lemma reachable_distinct: "reachable lg \<Longrightarrow> distinct (map key_of (retryQueue lg))"
proof (induction rule: reachable.induct)
  case (r_new host proc opts h)
  then show ?case by (simp add: new_logger_def split: prod.splits)
next
  case (r_log lg h clk http d rc)
  then show ?case by (simp add: log_keeps_distinct)
next
  case (r_fire lg t h clk http)
  then show ?case by (simp add: fire_def log_keeps_distinct)
next
  case (r_child lg c opts h)
  then show ?case by (simp add: child_def new_logger_def Let_def split: prod.splits)
qed (simp_all add: clearRetryQueue_def setEnabledLevels_def enableConsole_def
    disableConsole_def enableSilent_def disableSilent_def)

lemma distinct_map_finer:
  assumes "distinct (map f xs)"
    and "\<And>x y. x \<in> set xs \<Longrightarrow> y \<in> set xs \<Longrightarrow> g x = g y \<Longrightarrow> f x = f y"
  shows "distinct (map g xs)"
proof -
  from assms(1) have d: "distinct xs" and i: "inj_on f (set xs)"
    by (simp_all add: distinct_map)
  have "inj_on g (set xs)"
  proof (rule inj_onI)
    fix x y assume "x \<in> set xs" "y \<in> set xs" "g x = g y"
    then have "f x = f y" by (rule assms(2))
    with i \<open>x \<in> set xs\<close> \<open>y \<in> set xs\<close> show "x = y" by (simp add: inj_on_def)
  qed
  with d show ?thesis by (simp add: distinct_map)
qed

lemma sent_key_written:
  assumes "str_or (level (logData x)) None \<noteq> None" and "str_or (level (logData y)) None \<noteq> None"
    and "sent_key x = sent_key y"
  shows "key_of x = key_of y"
  using assms
  by (auto simp: sent_key_def key_of_def level_or_info_def str_or_def split: option.splits if_splits)

text \<open>
  C4, as stated, fails when the identity key is read as the message and the level
  of the record: the queue helpers compare the level as the caller wrote it, and
  \<open>log\<close> sends an absent level as \<open>info\<close>.  The same event logged first without
  its level and then with \<open>info\<close>, both attempts failing, leaves two items in the
  queue for two records that went out with the same message and the same level.
\<close>

theorem retry_queue_two_items_same_record:
  "reachable logger_twice \<and>
   map sent_key (retryQueue logger_twice) = [(''m'', ''info''), (''m'', ''info'')] \<and>
   map p_message (posts logger_twice) = [''m'', ''m''] \<and>
   map p_level (posts logger_twice) = [''info'', ''info'']"
proof -
  have "reachable logger_twice"
    unfolding logger_twice_def by (intro r_log reachable_logger0)
  moreover have "map sent_key (retryQueue logger_twice) = [(''m'', ''info''), (''m'', ''info'')]"
    "map p_message (posts logger_twice) = [''m'', ''m'']"
    "map p_level (posts logger_twice) = [''info'', ''info'']"
    unfolding logger_twice_def
    by (simp_all add: logger_log_def enhancedData_def backoff_def Let_def consoleLog_def
        client_log_def validateLogData_def level_or_info_def str_or_def num_or_def record_m_def
        record_m_info_def valid_levels_def addToRetryQueue_def same_key_def logger0_eq
        sent_key_def)
  ultimately show ?thesis by blast
qed

text \<open>
  C4, amended.  In every state a logger can be in, no two items of the retry queue
  have the same message and the same level as the caller wrote it (an absent level
  counting as a value of its own); \<open>_addToRetryQueue\<close> on a record for which such
  an item is in the queue leaves the logger as it is; and when every queued record
  has its level written out, no two items have the same message and the same
  level as sent.
\<close>

theorem retry_queue_dedup:
  "reachable lg \<Longrightarrow>
     distinct (map key_of (retryQueue lg)) \<and>
     (find (same_key d) (retryQueue lg) \<noteq> None \<longrightarrow> addToRetryQueue clk d rc lg = lg) \<and>
     (levels_written (retryQueue lg) \<longrightarrow> distinct (map sent_key (retryQueue lg)))"
proof -
  assume r: "reachable lg"
  then have d: "distinct (map key_of (retryQueue lg))" by (rule reachable_distinct)
  have "distinct (map sent_key (retryQueue lg))" if "levels_written (retryQueue lg)"
  proof (rule distinct_map_finer [OF d])
    fix x y assume "x \<in> set (retryQueue lg)" "y \<in> set (retryQueue lg)" "sent_key x = sent_key y"
    with that show "key_of x = key_of y"
      by (intro sent_key_written) (simp_all add: levels_written_def list_all_iff)
  qed
  with d show ?thesis by (auto simp: addToRetryQueue_def)
qed

theorem retry_queue_dedup_witness:
  "reachable logger1 \<and> find (same_key record0) (retryQueue logger1) \<noteq> None \<and>
   levels_written (retryQueue logger1) \<and>
   distinct (map key_of (retryQueue logger1)) \<and>
   distinct (map sent_key (retryQueue logger1)) \<and>
   addToRetryQueue clock0 record0 1 logger1 = logger1"
proof -
  have f: "find (same_key record0) (retryQueue logger1) \<noteq> None"
    by (simp add: logger1_eq item0_def same_key_def)
  have w: "levels_written (retryQueue logger1)"
    by (simp add: logger1_eq item0_def record0_def levels_written_def str_or_def)
  from retry_queue_dedup [OF reachable_logger1, of record0 clock0 1] f w reachable_logger1
  show ?thesis by simp
qed



subsection \<open>A successful send and the queue\<close>

text \<open>
  C2, as stated, fails: \<open>logger1\<close> holds an item for \<open>record0\<close>; a first attempt
  (retry count 0) to send a record with that key succeeds, and the item is still
  in the queue afterwards.
\<close>

theorem log_first_success_keeps_item:
  "fst (logger_log store0 clock0 (Resolved ''ok'') record0 0 logger1) = Sent ''ok'' \<and>
   retryQueue (snd (logger_log store0 clock0 (Resolved ''ok'') record0 0 logger1)) = [item0] \<and>
   same_key record0 item0"
  by (simp add: eval_simps logger1_eq logger0_eq item0_def)

text \<open>
  C2, amended.  When a send succeeds on a retry (retry count above 0), exactly the
  items with the record's identity key leave the queue, the others stay in their
  order; when it succeeds on the first attempt (retry count 0) the queue is left
  as it was, so it holds no item for the key only if it held none before.
\<close>

theorem log_success_queue:
  "logger_log h clk http d rc lg = (Sent r, lg') \<Longrightarrow>
     retryQueue lg' =
       (if rc > 0 then filter (\<lambda>item. \<not> same_key d item) (retryQueue lg) else retryQueue lg)"
  by (rule log_sent)

theorem log_success_queue_witness:
  "logger_log store0 clock0 (Resolved ''ok'') record0 1 logger1 =
     (Sent ''ok'', snd (logger_log store0 clock0 (Resolved ''ok'') record0 1 logger1)) \<and>
   retryQueue (snd (logger_log store0 clock0 (Resolved ''ok'') record0 1 logger1)) = []"
proof -
  have r: "fst (logger_log store0 clock0 (Resolved ''ok'') record0 1 logger1) = Sent ''ok''"
    by (simp add: eval_simps logger1_eq logger0_eq item0_def)
  then have e: "logger_log store0 clock0 (Resolved ''ok'') record0 1 logger1 =
     (Sent ''ok'', snd (logger_log store0 clock0 (Resolved ''ok'') record0 1 logger1))"
    by (metis prod.collapse)
  from log_success_queue [OF e] show ?thesis using e
    by (simp add: logger1_eq item0_def same_key_def)
qed


subsection \<open>Validation failures\<close>

lemma validateLogData_error:
  "validateLogData vp x = Some e \<Longrightarrow> \<exists>m. e = ValidationError m"
  by (auto simp: validateLogData_def split: if_splits)

text \<open>
  C3, as stated, fails: the record with the empty message fails validation, the
  call returns the validation error, and the logger has put an item in the queue
  and set a timer for a retry.
\<close>

theorem log_validation_failure_is_queued:
  "fst (logger_log store0 clock0 RejectedRequest record_bad 0 logger0) =
     Failed (ValidationError ''message is required and must be a string'') \<and>
   retryQueue (snd (logger_log store0 clock0 RejectedRequest record_bad 0 logger0)) =
     [\<lparr>logData = record_bad, retryCount = 1, addedAt = 5\<rparr>] \<and>
   timers (snd (logger_log store0 clock0 RejectedRequest record_bad 0 logger0)) =
     [\<lparr>t_delay = 1000, t_data = record_bad, t_retry = 1\<rparr>]"
  by (simp add: eval_simps logger0_eq record_bad_def)

text \<open>
  C3, amended.  A record that fails validation makes the call fail with that
  validation error, and no request is sent; but the logger treats the failure as
  any other: with a retry count below \<open>maxRetries\<close> it runs \<open>_addToRetryQueue\<close>
  and sets a timer for the next attempt, and only at \<open>maxRetries\<close> it does neither.
\<close>

theorem log_validation_failure_retried:
  assumes "level_or_info d \<in> set (enabledLevels lg)"
    and "validateLogData (validatePayload lg) (enhancedData h clk lg d) = Some e"
  shows "(\<exists>m. e = ValidationError m) \<and>
         fst (logger_log h clk http d rc lg) = Failed e \<and>
         posts (snd (logger_log h clk http d rc lg)) = posts lg \<and>
         retryQueue (snd (logger_log h clk http d rc lg)) =
           (if rc < maxRetries lg then retryQueue (addToRetryQueue clk d rc lg)
            else retryQueue lg) \<and>
         timers (snd (logger_log h clk http d rc lg)) =
           (if rc < maxRetries lg
            then timers lg @ [\<lparr>t_delay = retryDelay lg * 2 ^ rc, t_data = d, t_retry = rc + 1\<rparr>]
            else timers lg)"
proof -
  have f: "fst (logger_log h clk http d rc lg) = Failed e"
    by (rule log_validation_failure(1) [OF assms])
  then have "logger_log h clk http d rc lg = (Failed e, snd (logger_log h clk http d rc lg))"
    by (metis prod.collapse)
  from log_failed [OF this] f log_validation_failure(2) [OF assms, of http rc]
    validateLogData_error [OF assms(2)]
  show ?thesis by (simp add: backoff_def)
qed

theorem log_validation_failure_retried_witness:
  "level_or_info record_bad \<in> set (enabledLevels logger0) \<and>
   validateLogData (validatePayload logger0) (enhancedData store0 clock0 logger0 record_bad) =
     Some (ValidationError ''message is required and must be a string'') \<and>
   fst (logger_log store0 clock0 RejectedRequest record_bad 0 logger0) =
     Failed (ValidationError ''message is required and must be a string'') \<and>
   posts (snd (logger_log store0 clock0 RejectedRequest record_bad 0 logger0)) = [] \<and>
   timers (snd (logger_log store0 clock0 RejectedRequest record_bad 0 logger0)) =
     [\<lparr>t_delay = 1000, t_data = record_bad, t_retry = 1\<rparr>]"
proof -
  have a: "level_or_info record_bad \<in> set (enabledLevels logger0)"
    by (simp add: level_or_info_def str_or_def record_bad_def logger0_eq valid_levels_def)
  have b: "validateLogData (validatePayload logger0)
             (enhancedData store0 clock0 logger0 record_bad) =
           Some (ValidationError ''message is required and must be a string'')"
    by (simp add: validateLogData_def enhancedData_def record_bad_def logger0_eq)
  from log_validation_failure_retried [OF a b, of RejectedRequest 0] a b
  show ?thesis by (simp add: logger0_eq)
qed


subsection \<open>Backoff\<close>

text \<open>
  C5, as stated, fails in its last part: a failed attempt with retry count 1 that
  finds no item for the key in the queue inserts one whose count is 2.
\<close>

theorem log_retry_insert_carries_attempt:
  "fst (logger_log store0 clock0 RejectedRequest record0 1 logger0) =
     Failed (NetworkError ''Network request failed'') \<and>
   retryQueue logger0 = [] \<and>
   retryQueue (snd (logger_log store0 clock0 RejectedRequest record0 1 logger0)) =
     [\<lparr>logData = record0, retryCount = 2, addedAt = 5\<rparr>]"
  by (simp add: eval_simps logger0_eq)

text \<open>
  C5, amended.  When attempt \<open>k\<close> (the call with retry count \<open>k - 1\<close>), for
  \<open>1 \<le> k \<le> maxRetries\<close>, fails, one timer is set, for attempt \<open>k + 1\<close>, after
  \<open>retryDelay * 2 ^ (k - 1)\<close> ms; the delay does not decrease with \<open>k\<close> and grows
  when \<open>retryDelay\<close> is positive; the constructor sets \<open>retryDelay\<close> to 1000 and
  \<open>maxRetries\<close> to 3.  An item is inserted only when the queue has none for the
  key, and it carries the count \<open>k\<close>: 1 when the first attempt inserts it.
\<close>

theorem log_failure_backoff:
  assumes "1 \<le> k" and "k \<le> maxRetries lg"
    and "logger_log h clk http d (k - 1) lg = (Failed e, lg')"
  shows "timers lg' =
           timers lg @ [\<lparr>t_delay = retryDelay lg * 2 ^ (k - 1), t_data = d, t_retry = k\<rparr>] \<and>
         backoff lg (k - 1) = retryDelay lg * 2 ^ (k - 1) \<and>
         backoff lg (k - 1) \<le> backoff lg k \<and>
         (0 < retryDelay lg \<longrightarrow> backoff lg (k - 1) < backoff lg k) \<and>
         retryQueue lg' =
           (if find (same_key d) (retryQueue lg) = None
            then retryQueue lg @ [\<lparr>logData = d, retryCount = k, addedAt = now_ms clk\<rparr>]
            else retryQueue lg) \<and>
         retryDelay (fst (new_logger host proc opts st)) = 1000 \<and>
         maxRetries (fst (new_logger host proc opts st)) = 3"
proof -
  from assms have rc: "k - 1 < maxRetries lg" and k: "k - 1 + 1 = k" "k = Suc (k - 1)"
    by simp_all
  have m: "backoff lg (k - 1) \<le> backoff lg k"
    "0 < retryDelay lg \<longrightarrow> backoff lg (k - 1) < backoff lg k"
    using assms(1) by (subst (2) k(2), simp add: backoff_def)+
  have c: "retryDelay (fst (new_logger host proc opts st)) = 1000"
    "maxRetries (fst (new_logger host proc opts st)) = 3"
    by (simp_all add: new_logger_def Let_def split: prod.splits)
  from log_failed [OF assms(3)] rc k(1) m c show ?thesis
    by (auto simp: addToRetryQueue_queue backoff_def)
qed

theorem log_failure_backoff_witness:
  "(1::nat) \<le> 1 \<and> 1 \<le> maxRetries logger0 \<and> 0 < retryDelay logger0 \<and>
   logger_log store0 clock0 RejectedRequest record0 (1 - 1) logger0 =
     (Failed (NetworkError ''Network request failed''), logger1) \<and>
   timers logger1 = [\<lparr>t_delay = 1000 * 2 ^ (1 - 1), t_data = record0, t_retry = 1\<rparr>] \<and>
   backoff logger0 (1 - 1) < backoff logger0 1 \<and>
   retryQueue logger1 = [\<lparr>logData = record0, retryCount = 1, addedAt = 5\<rparr>]"
proof -
  have f: "fst (logger_log store0 clock0 RejectedRequest record0 0 logger0) =
             Failed (NetworkError ''Network request failed'')"
    by (simp add: eval_simps logger0_eq)
  then have e: "logger_log store0 clock0 RejectedRequest record0 (1 - 1) logger0 =
                  (Failed (NetworkError ''Network request failed''), logger1)"
    unfolding logger1_def by (simp add: prod_eq_iff)
  have k: "(1::nat) \<le> 1" "1 \<le> maxRetries logger0" "0 < retryDelay logger0"
    by (simp_all add: logger0_eq)
  have q: "find (same_key record0) (retryQueue logger0) = None" "timers logger0 = []"
    "retryQueue logger0 = []" "retryDelay logger0 = 1000" "now_ms clock0 = 5"
    by (simp_all add: logger0_eq clock0_def)
  note t = log_failure_backoff [OF k(1,2) e, of "''host''" None no_options store0]
  from t have "timers logger1 =
      timers logger0 @ [\<lparr>t_delay = retryDelay logger0 * 2 ^ (1 - 1), t_data = record0, t_retry = 1\<rparr>]"
    by blast
  then have t1: "timers logger1 = [\<lparr>t_delay = 1000 * 2 ^ (1 - 1), t_data = record0, t_retry = 1\<rparr>]"
    by (simp only: q append_Nil)
  from t k(3) have t2: "backoff logger0 (1 - 1) < backoff logger0 1"
    by blast
  from t have "retryQueue logger1 =
      (if find (same_key record0) (retryQueue logger0) = None
       then retryQueue logger0 @ [\<lparr>logData = record0, retryCount = 1, addedAt = now_ms clock0\<rparr>]
       else retryQueue logger0)"
    by blast
  then have t3: "retryQueue logger1 = [\<lparr>logData = record0, retryCount = 1, addedAt = 5\<rparr>]"
    by (simp add: q)
  from k e t1 t2 t3 show ?thesis by blast
qed


subsection \<open>Exhausted retries\<close>

lemma retry_chain:
  assumes "level_or_info d \<in> set (enabledLevels lg)"
    and "\<forall>rc r. http rc \<noteq> Resolved r"
    and "timers lg = []"
    and "rc \<le> maxRetries lg"
    and "n = maxRetries lg - rc"
    and "0 < rc \<longrightarrow> find (same_key d) (retryQueue lg) \<noteq> None"
    and "0 < maxRetries lg"
  shows "\<exists>lg'. run_timers n h clk http (snd (logger_log h clk (http rc) d rc lg)) = Some lg' \<and>
           timers lg' = [] \<and> find (same_key d) (retryQueue lg') \<noteq> None"
  using assms
proof (induction n arbitrary: rc lg)
  case 0
  obtain e lg1 where l: "logger_log h clk (http rc) d rc lg = (Failed e, lg1)"
    using log_rejected [OF "0.prems"(1), of "http rc" h clk rc] "0.prems"(2)
    by (metis prod.collapse)
  from "0.prems" have rc: "rc = maxRetries lg" by simp
  have s: "snd (logger_log h clk (http rc) d rc lg) = lg1" by (simp add: l)
  from log_failed [OF l] rc "0.prems"
  have "timers lg1 = []" "find (same_key d) (retryQueue lg1) \<noteq> None"
    by simp_all
  then show ?case unfolding s by simp
next
  case (Suc n)
  obtain e lg1 where l: "logger_log h clk (http rc) d rc lg = (Failed e, lg1)"
    using log_rejected [OF Suc.prems(1), of "http rc" h clk rc] Suc.prems(2)
    by (metis prod.collapse)
  from Suc.prems have rc: "rc < maxRetries lg" by simp
  let ?t = "\<lparr>t_delay = backoff lg rc, t_data = d, t_retry = rc + 1\<rparr>"
  from log_failed [OF l] rc Suc.prems(3)
  have q: "retryQueue lg1 = retryQueue (addToRetryQueue clk d rc lg)" and t: "timers lg1 = [?t]"
    by simp_all
  let ?lg2 = "lg1\<lparr>timers := []\<rparr>"
  have cfg: "enabledLevels lg1 = enabledLevels lg" "maxRetries lg1 = maxRetries lg"
    using log_keeps_config [of h clk "http rc" d rc lg] by (simp_all add: l)
  have "\<exists>lg'. run_timers n h clk http
                 (snd (logger_log h clk (http (Suc rc)) d (Suc rc) ?lg2)) = Some lg' \<and>
           timers lg' = [] \<and> find (same_key d) (retryQueue lg') \<noteq> None"
    using Suc.prems rc cfg q find_after_add [of d clk rc lg]
    by (intro Suc.IH) simp_all
  moreover have s: "snd (logger_log h clk (http rc) d rc lg) = lg1" by (simp add: l)
  ultimately show ?case unfolding s
    by (simp add: t fire_def)
qed


text \<open>
  C1 does not hold of the code.  When every attempt of a record is rejected, the
  first failure puts an item in the queue, each failure with a retry count below
  \<open>maxRetries\<close> sets the next timer, and the failure at \<open>maxRetries\<close> sets none;
  nothing on that path removes the item.  So once no timer is pending, the queue
  still holds an item with the record's key.
\<close>

theorem exhausted_retries_keep_item:
  assumes "level_or_info d \<in> set (enabledLevels lg)"
    and "\<forall>rc r. http rc \<noteq> Resolved r"
    and "timers lg = []"
    and "0 < maxRetries lg"
  shows "\<exists>lg'. run_timers (maxRetries lg) h clk http (snd (logger_log h clk (http 0) d 0 lg)) = Some lg' \<and>
           timers lg' = [] \<and> find (same_key d) (retryQueue lg') \<noteq> None"
  using retry_chain [OF assms(1,2,3), of 0 "maxRetries lg" h clk] assms(4) by simp


theorem exhausted_retries_keep_item_witness:
  "level_or_info record0 \<in> set (enabledLevels logger0) \<and> timers logger0 = [] \<and>
   0 < maxRetries logger0 \<and>
   (\<exists>lg'. run_timers (maxRetries logger0) store0 clock0 (\<lambda>rc. RejectedRequest) logger1 = Some lg' \<and>
           timers lg' = [] \<and> find (same_key record0) (retryQueue lg') \<noteq> None)"
proof -
  have a: "level_or_info record0 \<in> set (enabledLevels logger0)"
    by (simp add: level_or_info_def str_or_def record0_def logger0_eq valid_levels_def)
  have b: "\<forall>rc r. (\<lambda>rc. RejectedRequest) rc \<noteq> Resolved r" by simp
  have c: "timers logger0 = []" "0 < maxRetries logger0" by (simp_all add: logger0_eq)
  from exhausted_retries_keep_item [OF a b c, of store0 clock0] a c
  show ?thesis by (simp add: logger1_def)
qed

text \<open>
  The same run, evaluated: four requests went out (retry counts 0 to 3), no timer
  is pending, and the queue is the one item the first failure inserted.
\<close>

lemma exhausted_retries_example:
  "map_option (\<lambda>lg. (retryQueue lg, timers lg, length (posts lg)))
     (run_timers 3 store0 clock0 (\<lambda>rc. RejectedRequest) logger1) = Some ([item0], [], 4)"
  by (simp add: fire_def eval_simps logger1_eq logger0_eq item0_def payload0_def context0_def numeral_3_eq_3)


section \<open>Child loggers\<close>

lemma deref_mutate_other: "a \<noteq> b \<Longrightarrow> deref (mutate a f h) b = deref h b"
  by (simp add: mutate_def deref_def)

lemma deref_mutate_same: "deref (mutate a f h) a = f (deref h a)"
  by (simp add: mutate_def deref_def)

lemma child_fresh_context:
  assumes "o_defaultContext opts = None" and "child c opts parent h = (ch, h')"
  shows "defaultContext ch = next_addr h"
    and "next_addr h' = Suc (next_addr h)"
    and "cells h' = (cells h)(next_addr h \<mapsto> spread (deref h (defaultContext parent)) c)"
  using assms
  by (auto simp: child_def new_logger_def alloc_def override_def Let_def split: prod.splits)

text \<open>
  C9, as stated, fails: \<open>additionalOptions\<close> may carry \<open>defaultContext\<close>, and it
  wins over the merged context.  Given the parent's own context object there, the
  child holds that object: a property set on the parent's context afterwards is
  seen through the child.
\<close>

theorem child_shares_given_context:
  "defaultContext (fst (child no_properties options_alias logger0 store0)) = defaultContext logger0 \<and>
   deref (snd (child no_properties options_alias logger0 store0))
     (defaultContext (fst (child no_properties options_alias logger0 store0))) ''region'' = None \<and>
   deref (set_prop (defaultContext logger0) ''region'' (JStr ''eu'')
            (snd (child no_properties options_alias logger0 store0)))
     (defaultContext (fst (child no_properties options_alias logger0 store0))) ''region''
     = Some (JStr ''eu'')"
  by (simp add: child_def new_logger_def alloc_def override_def Let_def options_alias_def
      no_options_def logger0_eq store0_def deref_def set_prop_def mutate_def spread_def
      no_properties_def)

text \<open>
  C9, amended.  When \<open>additionalOptions\<close> carries no \<open>defaultContext\<close>, the child's
  context is a new object holding the parent's defaults overridden by the
  additional context; making it changes neither the parent's context nor an
  earlier child's; and of the three objects (the parent's context and those of two
  children made one after the other) a change made in place to one, of any kind,
  leaves the other two as they were.
\<close>

theorem child_context_independent:
  assumes "defaultContext parent < next_addr h"
    and "o_defaultContext opts1 = None" and "o_defaultContext opts2 = None"
    and "child ctx1 opts1 parent h = (ch1, h1)"
    and "child ctx2 opts2 parent h1 = (ch2, h2)"
  shows "deref h1 (defaultContext ch1) = spread (deref h (defaultContext parent)) ctx1 \<and>
         deref h2 (defaultContext ch2) = spread (deref h1 (defaultContext parent)) ctx2 \<and>
         deref h1 (defaultContext parent) = deref h (defaultContext parent) \<and>
         deref h2 (defaultContext parent) = deref h (defaultContext parent) \<and>
         deref h2 (defaultContext ch1) = deref h1 (defaultContext ch1) \<and>
         defaultContext ch1 \<noteq> defaultContext parent \<and>
         defaultContext ch2 \<noteq> defaultContext parent \<and>
         defaultContext ch1 \<noteq> defaultContext ch2 \<and>
         deref (mutate (defaultContext parent) f h1) (defaultContext ch1) = deref h1 (defaultContext ch1) \<and>
         deref (mutate (defaultContext parent) f h2) (defaultContext ch1) = deref h2 (defaultContext ch1) \<and>
         deref (mutate (defaultContext parent) f h2) (defaultContext ch2) = deref h2 (defaultContext ch2) \<and>
         deref (mutate (defaultContext ch1) f h2) (defaultContext ch2) = deref h2 (defaultContext ch2) \<and>
         deref (mutate (defaultContext ch1) f h2) (defaultContext parent) = deref h2 (defaultContext parent) \<and>
         deref (mutate (defaultContext ch2) f h2) (defaultContext ch1) = deref h2 (defaultContext ch1) \<and>
         deref (mutate (defaultContext ch2) f h2) (defaultContext parent) = deref h2 (defaultContext parent)"
proof -
  note a = child_fresh_context [OF assms(2) assms(4)]
  note b = child_fresh_context [OF assms(3) assms(5)]
  have d: "defaultContext ch1 \<noteq> defaultContext parent" "defaultContext ch2 \<noteq> defaultContext parent"
    "defaultContext ch1 \<noteq> defaultContext ch2" "defaultContext ch2 \<noteq> defaultContext ch1"
    "defaultContext parent \<noteq> defaultContext ch1" "defaultContext parent \<noteq> defaultContext ch2"
    using assms(1) a(1,2) b(1) by simp_all
  have c1: "deref h1 (defaultContext ch1) = spread (deref h (defaultContext parent)) ctx1"
    by (simp add: deref_def a)
  have c2: "deref h2 (defaultContext ch2) = spread (deref h1 (defaultContext parent)) ctx2"
    by (simp add: deref_def b)
  have p1: "deref h1 (defaultContext parent) = deref h (defaultContext parent)"
    using assms(1) by (simp add: deref_def a(3))
  have p2: "deref h2 (defaultContext parent) = deref h (defaultContext parent)"
    using assms(1) a(2) by (simp add: deref_def b(3) a(3))
  have k: "deref h2 (defaultContext ch1) = deref h1 (defaultContext ch1)"
    using a(1,2) by (simp add: deref_def b(3))
  show ?thesis
    using d c1 c2 p1 p2 k by (simp add: deref_mutate_other)
qed


theorem child_context_independent_witness:
  "defaultContext logger0 < next_addr store0 \<and> o_defaultContext no_options = None \<and>
   child context_user no_options logger0 store0 = (child1, store1) \<and>
   child context_orders no_options logger0 store1 = (child2, store2) \<and>
   deref store2 (defaultContext child1) = spread (deref store0 (defaultContext logger0)) context_user \<and>
   defaultContext child1 \<noteq> defaultContext child2 \<and>
   deref (set_prop (defaultContext logger0) ''service'' (JStr ''web'') store2) (defaultContext child1)
     = deref store2 (defaultContext child1) \<and>
   deref (set_prop (defaultContext child1) ''service'' (JStr ''web'') store2) (defaultContext child2)
     = deref store2 (defaultContext child2)"
proof -
  have a: "defaultContext logger0 < next_addr store0" "o_defaultContext no_options = None"
    by (simp_all add: logger0_eq store0_def no_options_def)
  have c1: "child context_user no_options logger0 store0 = (child1, store1)"
    by (simp add: child1_def store1_def)
  have c2: "child context_orders no_options logger0 store1 = (child2, store2)"
    by (simp add: child2_def store2_def)
  note t = child_context_independent [OF a(1) a(2) a(2) c1 c2,
      of "\<lambda>obj. obj(''service'' \<mapsto> JStr ''web'')"]
  from t a c1 c2 show ?thesis
    unfolding set_prop_def by simp
qed

text \<open>
  The copy is one level deep: a property of the parent's context that is a
  reference to an object is a reference to the same object in the child's.
\<close>

lemma child_copies_references:
  assumes "o_defaultContext opts = None" and "child c opts parent h = (ch, h')"
    and "deref h (defaultContext parent) k = Some (JRef r)" and "c k = None"
  shows "deref h' (defaultContext ch) k = Some (JRef r)"
  using assms(3,4) by (simp add: deref_def child_fresh_context [OF assms(1,2)] spread_def map_add_def)


section \<open>Properties of the numbers\<close>

text \<open>
  The exponent found by \<open>expo\<close> is the right one, so a positive number is rounded at
  the unit \<open>2 ^ (e - 52)\<close> of the binade \<open>[2 ^ e, 2 ^ (e + 1))\<close> it lies in; and every
  integer up to \<open>2 ^ 53\<close> in magnitude is a double, so sums of counts below that
  bound are exact.
\<close>

lemma round_even_of_int [simp]: "round_even (of_int k) = k"
  by (simp add: round_even_def)

lemma floorlog_rat_bounds:
  assumes "0 < k"
  shows "(2::rat) ^ (floorlog 2 (nat k) - 1) \<le> of_int k"
    and "of_int k < (2::rat) ^ floorlog 2 (nat k)"
    and "0 < floorlog 2 (nat k)"
proof -
  from floorlog_bounds [of "nat k" 2] assms
  have b: "2 ^ (floorlog 2 (nat k) - 1) \<le> nat k" "nat k < 2 ^ floorlog 2 (nat k)"
    by simp_all
  have "(of_nat (2 ^ (floorlog 2 (nat k) - 1)) :: rat) \<le> of_nat (nat k)"
    using b(1) by (simp only: of_nat_le_iff)
  then show "(2::rat) ^ (floorlog 2 (nat k) - 1) \<le> of_int k"
    using assms by simp
  have "(of_nat (nat k) :: rat) < of_nat (2 ^ floorlog 2 (nat k))"
    using b(2) by (simp only: of_nat_less_iff)
  then show "of_int k < (2::rat) ^ floorlog 2 (nat k)"
    using assms by simp
  show "0 < floorlog 2 (nat k)"
    using assms by (simp add: floorlog_def)
qed

lemma expo_bounds:
  assumes "0 < x"
  shows "power_int 2 (expo x) \<le> x" and "x < power_int 2 (expo x + 1)"
proof -
  obtain p q where pq: "quotient_of x = (p, q)" by (cases "quotient_of x")
  have q0: "0 < q" using quotient_of_denom_pos [OF pq] .
  have x: "x = of_int p / of_int q" using quotient_of_div [OF pq] .
  have p0: "0 < p" using assms q0 by (simp add: x zero_less_divide_iff)
  define a where "a = floorlog 2 (nat p)"
  define b where "b = floorlog 2 (nat q)"
  define d where "d = int a - int b"
  note pa = floorlog_rat_bounds [OF p0, folded a_def]
  note qb = floorlog_rat_bounds [OF q0, folded b_def]
  have "x < 2 ^ a / 2 ^ (b - 1)"
    unfolding x using pa(2) qb(1) p0 by (intro frac_less) simp_all
  also have "(2::rat) ^ a / 2 ^ (b - 1) = power_int 2 (int a - int (b - 1))"
    by (simp add: power_int_diff)
  also have "int a - int (b - 1) = d + 1"
    using qb(3) by (simp add: d_def)
  finally have up: "x < power_int 2 (d + 1)" .
  have "(2::rat) ^ (a - 1) / 2 ^ b \<le> x"
    unfolding x using pa(1) qb(2) q0 p0 by (intro frac_le) simp_all
  moreover have "(2::rat) ^ (a - 1) / 2 ^ b = power_int 2 (int (a - 1) - int b)"
    by (simp add: power_int_diff)
  moreover have "int (a - 1) - int b = d - 1"
    using pa(3) by (simp add: d_def)
  ultimately have lo: "power_int 2 (d - 1) \<le> x" by simp
  have e: "expo x = (if power_int 2 d \<le> x then d else d - 1)"
    by (simp add: expo_def pq a_def b_def d_def bitlen_def)
  show "power_int 2 (expo x) \<le> x"
    using lo by (simp add: e)
  show "x < power_int 2 (expo x + 1)"
    using up by (simp add: e)
qed

lemma expo_unique:
  assumes "0 < x" and "power_int 2 e \<le> x" and "x < power_int 2 (e + 1)"
  shows "expo x = e"
proof -
  note b = expo_bounds [OF assms(1)]
  have "power_int (2::rat) (expo x) < power_int 2 (e + 1)"
    using b(1) assms(3) by simp
  then have 1: "expo x < e + 1"
    using power_int_increasing [of "e + 1" "expo x" "2::rat"] by (force simp: not_le [symmetric])
  have "power_int (2::rat) e < power_int 2 (expo x + 1)"
    using b(2) assms(2) by simp
  then have 2: "e < expo x + 1"
    using power_int_increasing [of "expo x + 1" e "2::rat"] by (force simp: not_le [symmetric])
  from 1 2 show ?thesis by simp
qed

lemma fl_pos:
  assumes "0 < x" and "power_int 2 e \<le> x" and "x < power_int 2 (e + 1)"
  shows "fl x = of_int (round_even (x / power_int 2 (e - 52))) * power_int 2 (e - 52)"
  using assms(1) by (simp add: fl_def Let_def expo_unique [OF assms])

lemma fl_exact:
  assumes "0 < x" and "power_int 2 e \<le> x" and "x < power_int 2 (e + 1)"
    and "x / power_int 2 (e - 52) = of_int k"
  shows "fl x = x"
proof -
  have "of_int k * power_int (2::rat) (e - 52) = x"
    using assms(4) by (metis nonzero_divide_eq_eq power_int_eq_0_iff zero_neq_numeral)
  then show ?thesis
    by (simp add: fl_pos [OF assms(1-3)] assms(4))
qed

lemma round_even_divide:
  assumes "0 < b"
  shows "round_even (of_int a / of_int b) =
           (let q = a div b; r = a mod b
            in if 2 * r < b then q else if b < 2 * r then q + 1
               else if even q then q else q + 1)"
proof -
  have f: "\<lfloor>(of_int a / of_int b :: rat)\<rfloor> = a div b"
    by (rule floor_divide_of_int_eq)
  have "(of_int a :: rat) = of_int (a div b) * of_int b + of_int (a mod b)"
    by (metis div_mult_mod_eq of_int_add of_int_mult)
  then have t: "(of_int a / of_int b :: rat) - of_int (a div b) = of_int (a mod b) / of_int b"
    using assms by (simp add: field_simps)
  have lt: "(of_int (a mod b) / of_int b :: rat) < 1 / 2 \<longleftrightarrow> 2 * (a mod b) < b"
  proof -
    have "(of_int (a mod b) / of_int b :: rat) < 1 / 2 \<longleftrightarrow>
            (of_int (2 * (a mod b)) :: rat) < of_int b"
      using assms by (simp add: field_simps)
    then show ?thesis by (simp only: of_int_less_iff)
  qed
  have gt: "1 / 2 < (of_int (a mod b) / of_int b :: rat) \<longleftrightarrow> b < 2 * (a mod b)"
  proof -
    have "1 / 2 < (of_int (a mod b) / of_int b :: rat) \<longleftrightarrow>
            (of_int b :: rat) < of_int (2 * (a mod b))"
      using assms by (simp add: field_simps)
    then show ?thesis by (simp only: of_int_less_iff)
  qed
  show ?thesis
    unfolding round_even_def Let_def f t lt gt ..
qed

lemma round_even_numeral:
  "round_even (numeral a / numeral b) =
     (let q = (numeral a div numeral b :: int); r = (numeral a mod numeral b :: int)
      in if 2 * r < numeral b then q else if numeral b < 2 * r then q + 1
         else if even q then q else q + 1)"
  using round_even_divide [of "numeral b" "numeral a"] by simp

lemma nat_pow_bounds:
  assumes "0 < n"
  shows "2 ^ (floorlog 2 n - 1) \<le> n" and "n < 2 ^ Suc (floorlog 2 n - 1)"
proof -
  from floorlog_bounds [of n 2] assms
  have b: "2 ^ (floorlog 2 n - 1) \<le> n" "n < 2 ^ floorlog 2 n" by simp_all
  have "0 < floorlog 2 n" using assms by (simp add: floorlog_def)
  then have "Suc (floorlog 2 n - 1) = floorlog 2 n" by simp
  with b show "2 ^ (floorlog 2 n - 1) \<le> n" and "n < 2 ^ Suc (floorlog 2 n - 1)"
    by simp_all
qed

lemma fl_of_nat:
  assumes "n \<le> 2 ^ 53"
  shows "fl (of_nat n) = of_nat n"
proof (cases "n = 0")
  case True
  then show ?thesis by (simp add: fl_def)
next
  case False
  define e where "e = floorlog 2 n - 1"
  from nat_pow_bounds [of n] False
  have lo: "2 ^ e \<le> n" and hi: "n < 2 ^ Suc e"
    by (simp_all add: e_def)
  from lo assms have "(2::nat) ^ e \<le> 2 ^ 53" by (rule order_trans)
  then have e53: "e \<le> 53"
    by (simp only: power_increasing_iff one_less_numeral_iff semiring_norm)
  have lo': "power_int 2 (int e) \<le> (of_nat n :: rat)"
  proof -
    have "(of_nat (2 ^ e) :: rat) \<le> of_nat n" using lo by (simp only: of_nat_le_iff)
    then show ?thesis by simp
  qed
  have hi': "(of_nat n :: rat) < power_int 2 (int e + 1)"
  proof -
    have "(of_nat n :: rat) < of_nat (2 ^ Suc e)" using hi by (simp only: of_nat_less_iff)
    moreover have "int e + 1 = int (Suc e)" by simp
    ultimately show ?thesis by (simp only: power_int_of_nat of_nat_power of_nat_numeral)
  qed
  have "\<exists>k::int. (of_nat n :: rat) / power_int 2 (int e - 52) = of_int k"
  proof (cases "e \<le> 52")
    case True
    then have "int e - 52 = - int (52 - e)" by simp
    then have "power_int (2::rat) (int e - 52) = inverse (2 ^ (52 - e))"
      by (simp only: power_int_minus power_int_of_nat)
    then have "(of_nat n :: rat) / power_int 2 (int e - 52) = of_nat n * 2 ^ (52 - e)"
      by (simp only: divide_inverse inverse_inverse_eq)
    also have "\<dots> = of_int (int n * 2 ^ (52 - e))" by simp
    finally show ?thesis by blast
  next
    case False
    with e53 have e: "e = 53" by simp
    from lo assms have "n = 2 ^ 53" unfolding e by (rule order_antisym [rotated])
    then have "(of_nat n :: rat) / power_int 2 (int e - 52) = of_int (2 ^ 52)"
      by (simp add: e)
    then show ?thesis by blast
  qed
  then obtain k :: int where k: "(of_nat n :: rat) / power_int 2 (int e - 52) = of_int k"
    by blast
  have "0 < (of_nat n :: rat)" using False by simp
  then show ?thesis using lo' hi' k by (rule fl_exact)
qed

lemma fl_minus: "fl (- x) = - fl x"
  by (simp add: fl_def Let_def sgn_minus)

lemma fl_of_int:
  assumes "\<bar>k\<bar> \<le> 2 ^ 53"
  shows "fl (of_int k) = of_int k"
proof (cases "0 \<le> k")
  case True
  then have "fl (of_int k) = fl (of_nat (nat k))" by simp
  also have "\<dots> = of_nat (nat k)" using assms True by (intro fl_of_nat) (simp add: nat_le_iff)
  finally show ?thesis using True by simp
next
  case False
  then have "fl (of_int k) = - fl (of_nat (nat (- k)))" by (simp flip: fl_minus)
  also have "fl (of_nat (nat (- k))) = of_nat (nat (- k))"
    using assms False by (intro fl_of_nat) (simp add: nat_le_iff)
  finally show ?thesis using False by simp
qed


lemma js_sum_from:
  "a + sum_list ns \<le> 2 ^ 53 \<Longrightarrow>
   foldl (\<lambda>sum c. js_add sum (of_nat c)) (of_nat a) ns = of_nat (a + sum_list ns)"
proof (induction ns arbitrary: a)
  case Nil
  then show ?case by simp
next
  case (Cons c ns)
  from Cons.prems have b: "a + c \<le> 2 ^ 53" and r: "(a + c) + sum_list ns \<le> 2 ^ 53"
    by simp_all
  have "js_add (of_nat a) (of_nat c) = of_nat (a + c)"
    using fl_of_nat [OF b] by (simp add: js_add_def)
  then show ?case
    using Cons.IH [OF r] by (simp add: add.assoc)
qed

lemma js_sum_exact: "sum_list ns \<le> 2 ^ 53 \<Longrightarrow> js_sum ns = of_nat (sum_list ns)"
  using js_sum_from [of 0 ns] by (simp add: js_sum_def)

lemma floor_numeral_divide: "\<lfloor>numeral a / numeral b :: rat\<rfloor> = numeral a div numeral b"
  using floor_divide_of_int_eq [of "numeral a" "numeral b", where ?'a = rat] by simp

lemma fl_numeral: "numeral k \<le> (2::nat) ^ 53 \<Longrightarrow> fl (numeral k) = numeral k"
  using fl_of_nat [of "numeral k"] by simp



section \<open>Properties of the statistics\<close>

subsection \<open>Error rate\<close>

lemma error_fold:
  "foldl error_step (t, e) xs =
     (foldl (\<lambda>sum c. js_add sum (of_nat c)) t (map ls_count xs),
      foldl (\<lambda>sum c. js_add sum (of_nat c)) e (map ls_count (error_entries xs)))"
  by (induction xs arbitrary: t e) (simp_all add: error_step_def error_entries_def)

lemma getErrorRate_js:
  "getErrorRate xs =
     (if js_sum (map ls_count xs) > 0
      then percent (js_sum (map ls_count (error_entries xs))) (js_sum (map ls_count xs))
      else 0)"
  by (simp add: getErrorRate_def error_fold js_sum_def percent_def)

lemma sum_list_filter_le:
  "sum_list (map (f :: 'a \<Rightarrow> nat) (filter P xs)) \<le> sum_list (map f xs)"
  by (induction xs) simp_all

lemma error_count_le: "error_count xs \<le> total_count xs"
  unfolding error_count_def total_count_def error_entries_def by (rule sum_list_filter_le)

lemma percent_20_100: "percent 20 100 = 20"
  unfolding percent_def js_mul_def js_div_def
  apply (subst fl_pos [where x = "20 / 100" and e = "- 3"]; simp add: round_even_numeral Let_def)
  apply (subst fl_pos [where e = 4]; simp add: round_even_numeral Let_def)
  done

text \<open>
  C7.  For every list of per-level counts, \<open>getErrorRate\<close> is the sum of the counts
  of the levels error and critical, divided by the sum of all counts, times 100,
  when that total is positive, and 0 otherwise; sums, division and multiplication
  are those of doubles, and the sums are the exact sums of the counts whenever the
  total is at most \<open>2 ^ 53\<close>.  It is 0 when the total of the counts is 0, so on the
  empty list, and exactly 20 on info 80, error 15, critical 5.
\<close>

theorem errorRate_formula:
  "getErrorRate xs =
     (if js_sum (map ls_count xs) > 0
      then js_mul (js_div (js_sum (map ls_count (error_entries xs)))
                     (js_sum (map ls_count xs))) 100
      else 0) \<and>
   (total_count xs \<le> 2 ^ 53 \<longrightarrow>
      js_sum (map ls_count xs) = of_nat (total_count xs) \<and>
      js_sum (map ls_count (error_entries xs)) = of_nat (error_count xs)) \<and>
   (total_count xs = 0 \<longrightarrow> getErrorRate xs = 0) \<and>
   getErrorRate [] = 0 \<and>
   getErrorRate levels_example = 20"
proof -
  have a: "getErrorRate xs =
     (if js_sum (map ls_count xs) > 0
      then js_mul (js_div (js_sum (map ls_count (error_entries xs)))
                     (js_sum (map ls_count xs))) 100
      else 0)"
    using getErrorRate_js [of xs] by (simp only: percent_def)
  have b: "js_sum (map ls_count ys) = of_nat (total_count ys) \<and>
           js_sum (map ls_count (error_entries ys)) = of_nat (error_count ys)"
    if "total_count ys \<le> 2 ^ 53" for ys
  proof -
    from that error_count_le [of ys] have "error_count ys \<le> 2 ^ 53" by (rule order_trans [rotated])
    then show ?thesis
      using that unfolding total_count_def error_count_def by (simp add: js_sum_exact)
  qed
  have c: "getErrorRate ys = 0" if "total_count ys = 0" for ys
  proof -
    from that have "total_count ys \<le> 2 ^ 53" by simp
    from b [OF this] that show ?thesis by (simp add: getErrorRate_js)
  qed
  have t: "total_count levels_example = 100" "error_count levels_example = 20"
    by (simp_all add: total_count_def error_count_def error_entries_def levels_example_def)
  then have "total_count levels_example \<le> 2 ^ 53" by simp
  from b [OF this] have d: "getErrorRate levels_example = 20"
    by (simp add: getErrorRate_js t percent_20_100)
  have e: "getErrorRate [] = 0"
    by (rule c) (simp add: total_count_def)
  from a b [of xs] c [of xs] d e show ?thesis by blast
qed

theorem errorRate_formula_witness:
  "total_count levels_example \<le> 2 ^ 53 \<and> total_count levels_example = 100 \<and>
   error_count levels_example = 20 \<and>
   getErrorRate levels_example = js_mul (js_div 20 100) 100 \<and>
   total_count [] = 0 \<and> getErrorRate [] = 0"
proof -
  have t: "total_count levels_example = 100" "error_count levels_example = 20"
    "total_count [] = 0"
    by (simp_all add: total_count_def error_count_def error_entries_def levels_example_def)
  then have u: "total_count levels_example \<le> 2 ^ 53" by simp
  from errorRate_formula [of levels_example] u
  have s: "js_sum (map ls_count levels_example) = of_nat (total_count levels_example)"
    "js_sum (map ls_count (error_entries levels_example)) = of_nat (error_count levels_example)"
    and g: "getErrorRate levels_example =
     (if js_sum (map ls_count levels_example) > 0
      then js_mul (js_div (js_sum (map ls_count (error_entries levels_example)))
                     (js_sum (map ls_count levels_example))) 100
      else 0)"
    by blast+
  have "getErrorRate levels_example = js_mul (js_div 20 100) 100"
    unfolding g s t by simp
  moreover from errorRate_formula [of "[]"] t(3) have "getErrorRate [] = 0" by blast
  ultimately show ?thesis using t u by simp
qed


subsection \<open>Peak day and most frequent level\<close>

lemma find_append_if:
  "find P (xs @ ys) = (case find P xs of None \<Rightarrow> find P ys | Some x \<Rightarrow> Some x)"
  by (induction xs) simp_all

lemma reduce_first_max:
  "first_max cnt (m # xs) =
     Some (foldl (\<lambda>max current. if cnt current > cnt max then current else max) m xs)"
proof (induction xs rule: rev_induct)
  case Nil
  show ?case by (simp add: first_max_def)
next
  case (snoc y xs)
  let ?step = "\<lambda>max current. if cnt current > cnt max then current else max"
  let ?r = "foldl ?step m xs"
  let ?M = "Max (cnt ` set (m # xs))"
  from snoc.IH have f: "find (\<lambda>x. cnt x = ?M) (m # xs) = Some ?r"
    by (simp only: first_max_def)
  then have r: "cnt ?r = ?M"
    unfolding find_Some_iff by (elim exE conjE) (simp only:)
  have "cnt ` set (m # xs @ [y]) = insert (cnt y) (cnt ` set (m # xs))"
    by auto
  moreover have "Max (insert (cnt y) (cnt ` set (m # xs))) = max (cnt y) ?M"
    by (rule Max_insert) simp_all
  ultimately have M': "Max (cnt ` set (m # xs @ [y])) = max (cnt y) ?M"
    by (simp only:)
  show ?case
  proof (cases "cnt y > ?M")
    case True
    then have "\<forall>a \<in> set (m # xs). cnt a < cnt y"
      by (simp del: set_simps)
    then have n: "find (\<lambda>x. cnt x = cnt y) (m # xs) = None"
      unfolding find_None_iff by fastforce
    from True have mx: "max (cnt y) ?M = cnt y" by (simp only: max_def not_le [symmetric] if_False)
    have "first_max cnt (m # xs @ [y]) = find (\<lambda>x. cnt x = cnt y) ((m # xs) @ [y])"
      by (simp only: first_max_def M' mx append_Cons)
    also have "\<dots> = Some y"
      unfolding find_append_if n by simp
    finally have fm: "first_max cnt (m # xs @ [y]) = Some y" .
    have c: "cnt ?r < cnt y" unfolding r using True .
    have "foldl ?step m (xs @ [y]) = y" using c by simp
    with fm show ?thesis by (simp only:)
  next
    case False
    from False have mx: "max (cnt y) ?M = ?M" by (simp only: max_def not_less if_True)
    have "first_max cnt (m # xs @ [y]) = find (\<lambda>x. cnt x = ?M) ((m # xs) @ [y])"
      by (simp only: first_max_def M' mx append_Cons)
    also have "\<dots> = Some ?r"
      unfolding find_append_if f by simp
    finally have fm: "first_max cnt (m # xs @ [y]) = Some ?r" .
    have c: "\<not> cnt ?r < cnt y" unfolding r using False .
    have "foldl ?step m (xs @ [y]) = ?r" using c by simp
    with fm show ?thesis by (simp only:)
  qed
qed

text \<open>What \<open>first_max\<close> picks: the first position in the list whose count is the largest.\<close>
lemma first_max_index:
  assumes "xs \<noteq> []"
  shows "\<exists>i < length xs. first_max cnt xs = Some (xs ! i) \<and>
           (\<forall>j < length xs. cnt (xs ! j) \<le> cnt (xs ! i)) \<and>
           (\<forall>j < i. cnt (xs ! j) < cnt (xs ! i))"
proof -
  let ?M = "Max (cnt ` set xs)"
  have "?M \<in> cnt ` set xs" using assms by (intro Max_in) simp_all
  then obtain x where "x \<in> set xs" "cnt x = ?M" by auto
  then have "find (\<lambda>x. cnt x = ?M) xs \<noteq> None" by (auto simp: find_None_iff)
  then obtain i where i: "i < length xs" "cnt (xs ! i) = ?M"
    "find (\<lambda>x. cnt x = ?M) xs = Some (xs ! i)" "\<forall>j < i. cnt (xs ! j) \<noteq> ?M"
    by (auto simp: find_Some_iff)
  have le: "\<And>j. j < length xs \<Longrightarrow> cnt (xs ! j) \<le> ?M"
    by (intro Max_ge) simp_all
  have "\<forall>j < i. cnt (xs ! j) < ?M"
  proof (intro allI impI)
    fix j assume "j < i"
    with i(1,4) le [of j] show "cnt (xs ! j) < ?M" by (simp add: le_neq_trans)
  qed
  with i le show ?thesis
    unfolding first_max_def by (intro exI [of _ i]) simp
qed

lemma getPeakDay_first_max: "getPeakDay ds = first_max ds_count ds"
  by (cases ds) (simp_all add: getPeakDay_def reduce_first_max, simp add: first_max_def)

lemma getMostFrequentLevel_first_max:
  "getMostFrequentLevel xs =
     map_option (\<lambda>s. \<lparr>mf_level = ls_level s, mf_count = ls_count s,
                       mf_percentage =
                         round2 (if js_sum (map ls_count xs) > 0
                                 then percent (of_nat (ls_count s)) (js_sum (map ls_count xs))
                                 else 0)\<rparr>)
       (first_max ls_count xs)"
proof (cases xs)
  case Nil
  then show ?thesis by (simp add: getMostFrequentLevel_def first_max_def)
next
  case (Cons x rest)
  show ?thesis
    unfolding Cons reduce_first_max
    by (simp add: getMostFrequentLevel_def Let_def round2_def percent_def)
qed

subsection \<open>Rounding to two decimal places\<close>

text \<open>
  \<open>Math.round\<close> picks the nearest integer, the upper one of two equally near, and
  there is one such integer; so \<open>Math.round(x * 100) / 100\<close> is the quotient by 100
  of the integer nearest to the product \<open>x * 100\<close>, both the product and the
  quotient in double arithmetic.
\<close>

lemma nearest_int_Math_round: "nearest_int y \<lfloor>y + 1 / 2\<rfloor>"
  unfolding nearest_int_def by linarith

lemma nearest_int_unique:
  assumes "nearest_int y k" and "nearest_int y j"
  shows "k = j"
proof -
  from assms have "(of_int k :: rat) < of_int j + 1" "(of_int j :: rat) < of_int k + 1"
    by (simp_all add: nearest_int_def)
  then have "(of_int k :: rat) < of_int (j + 1)" "(of_int j :: rat) < of_int (k + 1)"
    by simp_all
  then have "k < j + 1" "j < k + 1" by (simp_all only: of_int_less_iff)
  then show ?thesis by simp
qed

lemma round2_nearest:
  "\<exists>k. nearest_int (js_mul x 100) k \<and> round2 x = js_div (of_int k) 100"
  unfolding round2_def Math_round_def
  using nearest_int_Math_round [of "js_mul x 100"] by blast

lemma round2_eqI:
  assumes "nearest_int (js_mul x 100) k"
  shows "round2 x = js_div (of_int k) 100"
proof -
  from round2_nearest [of x] obtain j where j: "nearest_int (js_mul x 100) j"
    "round2 x = js_div (of_int j) 100" by blast
  from nearest_int_unique [OF assms j(1)] j(2) show ?thesis by simp
qed

lemma p_87_160: "nearest_int (js_mul (percent 87 160) 100) 5437"
  by code_simp

lemma p_7_18: "nearest_int (js_mul (percent 7 18) 100) 3889"
  by code_simp

lemma half_up_87_160: "round_half_up2 (87 / 160 * 100) = 5438 / 100"
  by (simp add: round_half_up2_def floor_numeral_divide)

lemma below_5438: "js_div 5437 100 < 5438 / 100 - 1 / 200"
  by code_simp

lemma near_5437: "\<bar>js_div 5437 100 - 5437 / 100\<bar> < 1 / 10 ^ 14"
  by code_simp

lemma near_3889: "\<bar>js_div 3889 100 - 3889 / 100\<bar> < 1 / 10 ^ 14"
  by code_simp

lemma near_1437: "\<bar>js_div 1437 100 - 1437 / 100\<bar> < 1 / 10 ^ 14"
  by code_simp

lemma getMostFrequentLevel_Some:
  assumes "getMostFrequentLevel xs = Some m"
  shows "mf_percentage m = round2 (percentage_of (mf_count m) (js_sum (map ls_count xs)))"
proof -
  from assms obtain s where "first_max ls_count xs = Some s"
    and m: "m = \<lparr>mf_level = ls_level s, mf_count = ls_count s,
              mf_percentage =
                round2 (if js_sum (map ls_count xs) > 0
                        then percent (of_nat (ls_count s)) (js_sum (map ls_count xs))
                        else 0)\<rparr>"
    unfolding getMostFrequentLevel_first_max by auto
  show ?thesis unfolding m by (simp add: percentage_of_def)
qed


text \<open>
  C8, as stated, fails when "rounded to two decimal places" is read of the exact
  percentage: on the levels info 87 and error 73 the percentage is 54.375, which
  rounds half up to 54.38, while the product \<open>percentage * 100\<close> in double
  arithmetic falls just below 5437.5 and \<open>getMostFrequentLevel\<close> returns 54.37.
\<close>

theorem percentage_rounds_double_product:
  "map_option mf_count (getMostFrequentLevel levels_half) = Some 87 \<and>
   total_count levels_half = 160 \<and>
   round_half_up2 (87 / 160 * 100) = 5438 / 100 \<and>
   map_option mf_percentage (getMostFrequentLevel levels_half) = Some (js_div 5437 100) \<and>
   js_div 5437 100 < 5438 / 100 - 1 / 200 \<and>
   \<bar>js_div 5437 100 - 5437 / 100\<bar> < 1 / 10 ^ 14"
proof -
  have fm: "first_max ls_count levels_half = Some \<lparr>ls_level = ''info'', ls_count = 87\<rparr>"
    by code_simp
  have t: "total_count levels_half = 160"
    by (simp add: total_count_def levels_half_def)
  have "js_sum (map ls_count levels_half) = of_nat (sum_list (map ls_count levels_half))"
    by (rule js_sum_exact) (simp add: levels_half_def)
  then have s: "js_sum (map ls_count levels_half) = 160"
    by (simp add: levels_half_def)
  have r: "round2 (percent 87 160) = js_div 5437 100"
    using round2_eqI [OF p_87_160] by simp
  have g: "getMostFrequentLevel levels_half =
     Some \<lparr>mf_level = ''info'', mf_count = 87, mf_percentage = js_div 5437 100\<rparr>"
    unfolding getMostFrequentLevel_first_max fm s by (simp add: r)
  from g t half_up_87_160 below_5438 near_5437 show ?thesis by simp
qed


text \<open>
  C8, amended.  \<open>getPeakDay\<close> returns the first entry of the list whose count is
  the largest, and \<open>getMostFrequentLevel\<close> the level and the count of the first
  such entry; both are functions of the list alone, \<open>null\<close> on the empty list and
  an entry on any other.  The percentage returned is \<open>k / 100\<close> as a double, where
  \<open>k\<close> is the integer nearest (the upper one of two equally near) to the double
  product of 100 and the percentage \<open>count / total * 100\<close>, itself in double
  arithmetic and 0 when the total is 0; the total is the exact sum of the counts
  whenever that is at most \<open>2 ^ 53\<close>.  On info 7, error 7, debug 4 the result is
  info, 7 and the double of 38.89.
\<close>

theorem peak_and_most_frequent:
  "getPeakDay ds = first_max ds_count ds \<and>
   map_option (\<lambda>m. (mf_level m, mf_count m)) (getMostFrequentLevel xs) =
     map_option (\<lambda>s. (ls_level s, ls_count s)) (first_max ls_count xs) \<and>
   (getMostFrequentLevel xs = Some m \<longrightarrow>
      (\<exists>k. nearest_int
              (js_mul (percentage_of (mf_count m) (js_sum (map ls_count xs))) 100) k \<and>
           mf_percentage m = js_div (of_int k) 100)) \<and>
   (total_count xs \<le> 2 ^ 53 \<longrightarrow> js_sum (map ls_count xs) = of_nat (total_count xs)) \<and>
   getPeakDay [] = None \<and> getMostFrequentLevel [] = None \<and>
   (ds \<noteq> [] \<longrightarrow> getPeakDay ds \<noteq> None) \<and> (xs \<noteq> [] \<longrightarrow> getMostFrequentLevel xs \<noteq> None)"
proof -
  have a: "getPeakDay ds = first_max ds_count ds" by (rule getPeakDay_first_max)
  have b: "map_option (\<lambda>m. (mf_level m, mf_count m)) (getMostFrequentLevel xs) =
     map_option (\<lambda>s. (ls_level s, ls_count s)) (first_max ls_count xs)"
    by (simp add: getMostFrequentLevel_first_max option.map_comp comp_def)
  have p: "getMostFrequentLevel xs = Some m \<longrightarrow>
      (\<exists>k. nearest_int
              (js_mul (percentage_of (mf_count m) (js_sum (map ls_count xs))) 100) k \<and>
           mf_percentage m = js_div (of_int k) 100)"
  proof
    assume "getMostFrequentLevel xs = Some m"
    from getMostFrequentLevel_Some [OF this]
      round2_nearest [of "percentage_of (mf_count m) (js_sum (map ls_count xs))"]
    show "\<exists>k. nearest_int
              (js_mul (percentage_of (mf_count m) (js_sum (map ls_count xs))) 100) k \<and>
           mf_percentage m = js_div (of_int k) 100"
      by simp
  qed
  have c: "total_count xs \<le> 2 ^ 53 \<longrightarrow> js_sum (map ls_count xs) = of_nat (total_count xs)"
    unfolding total_count_def by (simp add: js_sum_exact)
  have d: "getPeakDay [] = None" "getMostFrequentLevel [] = None"
    by (simp_all add: getPeakDay_def getMostFrequentLevel_def)
  have e: "ds \<noteq> [] \<longrightarrow> getPeakDay ds \<noteq> None" "xs \<noteq> [] \<longrightarrow> getMostFrequentLevel xs \<noteq> None"
    by (cases ds; simp add: getPeakDay_def) (cases xs; simp add: getMostFrequentLevel_def Let_def)
  from a b p c d e show ?thesis by blast
qed

theorem peak_and_most_frequent_witness:
  "total_count levels_tie \<le> 2 ^ 53 \<and> days_tie \<noteq> [] \<and> levels_tie \<noteq> [] \<and>
   getPeakDay days_tie = Some (day ''2024-01-02'' 7) \<and>
   getMostFrequentLevel levels_tie = Some most_tie \<and>
   nearest_int (js_mul (percentage_of (mf_count most_tie) (js_sum (map ls_count levels_tie))) 100)
     3889 \<and>
   mf_percentage most_tie = js_div (of_int 3889) 100 \<and>
   \<bar>mf_percentage most_tie - 3889 / 100\<bar> < 1 / 10 ^ 14"
proof -
  have fm1: "first_max ds_count days_tie = Some (day ''2024-01-02'' 7)"
    by code_simp
  have fm2: "first_max ls_count levels_tie = Some \<lparr>ls_level = ''info'', ls_count = 7\<rparr>"
    by code_simp
  have t: "total_count levels_tie = 18"
    by (simp add: total_count_def levels_tie_def)
  then have u: "total_count levels_tie \<le> 2 ^ 53" by simp
  have n: "days_tie \<noteq> []" "levels_tie \<noteq> []"
    by (simp_all add: days_tie_def levels_tie_def)
  have r: "round2 (percent 7 18) = js_div 3889 100"
    using round2_eqI [OF p_7_18] by simp
  note p = peak_and_most_frequent [of days_tie levels_tie most_tie]
  from p have p1: "getPeakDay days_tie = first_max ds_count days_tie" by blast
  from p u have p3: "js_sum (map ls_count levels_tie) = of_nat (total_count levels_tie)" by blast
  then have s: "js_sum (map ls_count levels_tie) = 18" by (simp add: t)
  have g: "getMostFrequentLevel levels_tie = Some most_tie"
    unfolding getMostFrequentLevel_first_max fm2 s most_tie_def by (simp add: r)
  with p obtain k where k: "nearest_int
      (js_mul (percentage_of (mf_count most_tie) (js_sum (map ls_count levels_tie))) 100) k"
    "mf_percentage most_tie = js_div (of_int k) 100" by blast
  have q: "nearest_int
      (js_mul (percentage_of (mf_count most_tie) (js_sum (map ls_count levels_tie))) 100) 3889"
    unfolding s using p_7_18 by (simp add: most_tie_def percentage_of_def)
  from nearest_int_unique [OF k(1) q] k(2) have "mf_percentage most_tie = js_div (of_int 3889) 100"
    by simp
  moreover have "\<bar>mf_percentage most_tie - 3889 / 100\<bar> < 1 / 10 ^ 14"
    using near_3889 by (simp add: most_tie_def)
  ultimately show ?thesis using p1 fm1 u n g q by simp
qed

subsection \<open>Trend\<close>

lemma classify_abs:
  "(if \<bar>c\<bar> > 20 then (if c > 0 then Increasing else Decreasing) else Stable) = classify c"
  by (simp add: classify_def)

lemma getTrend_short:
  "length ds < 14 \<Longrightarrow>
   getTrend dm ho ds = \<lparr>trend = Insufficient_data, change = 0, last_week = 0, previous_week = 0\<rparr>"
  by (simp add: getTrend_def)

lemma sortedStats_valid: "valid_dates dm ds \<Longrightarrow> sortedStats dm ho ds = by_date_desc dm ds"
  by (simp add: sortedStats_def by_date_desc_def)

lemma getTrend_long:
  assumes "14 \<le> length ds" and "valid_dates dm ds"
  shows "getTrend dm ho ds =
           \<lparr>trend = classify (week_change (js_sum (map ds_count (week1 dm ds)))
                                (js_sum (map ds_count (week2 dm ds)))),
            change = round2 (week_change (js_sum (map ds_count (week1 dm ds)))
                               (js_sum (map ds_count (week2 dm ds)))),
            last_week = js_sum (map ds_count (week1 dm ds)),
            previous_week = js_sum (map ds_count (week2 dm ds))\<rparr>"
proof -
  have n: "\<not> length ds < 14" using assms(1) by simp
  show ?thesis
    unfolding getTrend_def Let_def classify_abs sortedStats_valid [OF assms(2)]
    by (simp add: n week_change_def percent_def round2_def week1_def week2_def)
qed

lemma by_date_desc_sorted:
  "sorted_wrt (\<lambda>a b. date_key dm b \<le> date_key dm a) (by_date_desc dm ds)"
proof -
  have "sorted (map (\<lambda>day. - date_key dm day) (by_date_desc dm ds))"
    unfolding by_date_desc_def by (rule sorted_sort_key)
  then show ?thesis by (simp add: sorted_map)
qed

lemma jan_dates:
  "date_key jan2024 (day ''2024-01-01'' c) = 1704067200000"
  "date_key jan2024 (day ''2024-01-02'' c) = 1704153600000"
  "date_key jan2024 (day ''2024-01-03'' c) = 1704240000000"
  "date_key jan2024 (day ''2024-01-04'' c) = 1704326400000"
  "date_key jan2024 (day ''2024-01-05'' c) = 1704412800000"
  "date_key jan2024 (day ''2024-01-06'' c) = 1704499200000"
  "date_key jan2024 (day ''2024-01-07'' c) = 1704585600000"
  "date_key jan2024 (day ''2024-01-08'' c) = 1704672000000"
  "date_key jan2024 (day ''2024-01-09'' c) = 1704758400000"
  "date_key jan2024 (day ''2024-01-10'' c) = 1704844800000"
  "date_key jan2024 (day ''2024-01-11'' c) = 1704931200000"
  "date_key jan2024 (day ''2024-01-12'' c) = 1705017600000"
  "date_key jan2024 (day ''2024-01-13'' c) = 1705104000000"
  "date_key jan2024 (day ''2024-01-14'' c) = 1705190400000"
  by (simp_all add: date_key_def day_def jan2024_def jan2024_table_def)

lemma jan_valid:
  "valid_dates jan2024 days14" "valid_dates jan2024 days_boundary"
  "valid_dates jan2024 days_half"
  by (simp_all add: valid_dates_def days14_def days_boundary_def days_half_def day_def
      jan2024_def jan2024_table_def)

lemma boundary_sorted: "by_date_desc jan2024 days_boundary = days_boundary"
  unfolding by_date_desc_def
  by (rule sort_key_id_if_sorted) (simp add: days_boundary_def jan_dates)

lemma half_sorted: "by_date_desc jan2024 days_half = days_half"
  unfolding by_date_desc_def
  by (rule sort_key_id_if_sorted) (simp add: days_half_def jan_dates)

lemma boundary_weeks:
  "lastWeek jan2024 days_boundary = 120004"
  "previousWeek jan2024 days_boundary = 100000"
  unfolding lastWeek_def previousWeek_def week1_def week2_def boundary_sorted
  by (simp_all add: days_boundary_def day_def)

lemma half_weeks:
  "lastWeek jan2024 days_half = 183"
  "previousWeek jan2024 days_half = 160"
  unfolding lastWeek_def previousWeek_def week1_def week2_def half_sorted
  by (simp_all add: days_half_def day_def)

lemma days14_sorted:
  "by_date_desc jan2024 days14 =
     [day ''2024-01-14'' 20, day ''2024-01-13'' 20, day ''2024-01-12'' 20,
      day ''2024-01-11'' 20, day ''2024-01-10'' 20, day ''2024-01-09'' 20,
      day ''2024-01-08'' 20, day ''2024-01-07'' 20, day ''2024-01-06'' 20,
      day ''2024-01-05'' 20, day ''2024-01-04'' 10, day ''2024-01-03'' 10,
      day ''2024-01-02'' 10, day ''2024-01-01'' 10]"
  by (simp add: by_date_desc_def days14_def jan_dates)

lemma days14_weeks:
  "lastWeek jan2024 days14 = 140" "previousWeek jan2024 days14 = 100"
  unfolding lastWeek_def previousWeek_def week1_def week2_def days14_sorted
  by (simp_all add: day_def)

lemma c_140_100: "week_change 140 100 = 40" "nearest_int (js_mul 40 100) 4000" "js_div 4000 100 = 40"
  by code_simp+

lemma c_boundary:
  "classify (week_change 120004 100000) = Increasing"
  "nearest_int (js_mul (week_change 120004 100000) 100) 2000"
  "js_div 2000 100 = 20"
  by code_simp+

lemma c_half:
  "nearest_int (js_mul (week_change 183 160) 100) 1437"
  "js_div 1437 100 < 1438 / 100 - 1 / 200"
  by code_simp+

lemma half_up_183_160: "round_half_up2 ((183 - 160) / 160 * 100) = 1438 / 100"
  by (simp add: round_half_up2_def floor_numeral_divide)

lemma js_sum_weeks:
  "lastWeek dm ds \<le> 2 ^ 53 \<Longrightarrow> js_sum (map ds_count (week1 dm ds)) = of_nat (lastWeek dm ds)"
  "previousWeek dm ds \<le> 2 ^ 53 \<Longrightarrow>
     js_sum (map ds_count (week2 dm ds)) = of_nat (previousWeek dm ds)"
  unfolding lastWeek_def previousWeek_def by (simp_all add: js_sum_exact)


text \<open>
  C6, as stated, fails where the rounding matters.  On fourteen days whose weeks
  sum to 120004 and 100000 the change is about 20.004, which is classed as
  increasing, while the change in the result, rounded, is 20, and 20 is not above
  20.  On fourteen days whose weeks sum to 183 and 160 the change is 14.375, which
  rounds half up to 14.38, while the product \<open>change * 100\<close> in double arithmetic
  falls just below 1437.5 and the change in the result is 14.37.
\<close>

theorem trend_class_of_unrounded_change:
  "trend (getTrend jan2024 host_keeps days_boundary) = Increasing \<and>
   change (getTrend jan2024 host_keeps days_boundary) = 20 \<and>
   classify (change (getTrend jan2024 host_keeps days_boundary)) = Stable \<and>
   lastWeek jan2024 days_half = 183 \<and> previousWeek jan2024 days_half = 160 \<and>
   round_half_up2 ((183 - 160) / 160 * 100) = 1438 / 100 \<and>
   change (getTrend jan2024 host_keeps days_half) = js_div 1437 100 \<and>
   js_div 1437 100 < 1438 / 100 - 1 / 200 \<and>
   \<bar>js_div 1437 100 - 1437 / 100\<bar> < 1 / 10 ^ 14"
proof -
  have l: "14 \<le> length days_boundary" "14 \<le> length days_half"
    by (simp_all add: days_boundary_def days_half_def)
  have sb: "js_sum (map ds_count (week1 jan2024 days_boundary)) = 120004"
    "js_sum (map ds_count (week2 jan2024 days_boundary)) = 100000"
    using js_sum_weeks [of jan2024 days_boundary] by (simp_all add: boundary_weeks)
  have sh: "js_sum (map ds_count (week1 jan2024 days_half)) = 183"
    "js_sum (map ds_count (week2 jan2024 days_half)) = 160"
    using js_sum_weeks [of jan2024 days_half] by (simp_all add: half_weeks)
  have rb: "round2 (week_change 120004 100000) = 20"
    using round2_eqI [OF c_boundary(2)] by (simp add: c_boundary(3))
  have rh: "round2 (week_change 183 160) = js_div 1437 100"
    using round2_eqI [OF c_half(1)] by simp
  have b: "getTrend jan2024 host_keeps days_boundary =
     \<lparr>trend = Increasing, change = 20, last_week = 120004, previous_week = 100000\<rparr>"
    unfolding getTrend_long [OF l(1) jan_valid(2)] sb by (simp add: c_boundary(1) rb)
  have h: "change (getTrend jan2024 host_keeps days_half) = js_div 1437 100"
    unfolding getTrend_long [OF l(2) jan_valid(3)] sh by (simp add: rh)
  from b h half_weeks half_up_183_160 c_half(2) near_1437 show ?thesis
    by (simp add: classify_def)
qed


text \<open>
  C6, amended.  On fewer than 14 entries \<open>getTrend\<close> returns the sentinel, whatever
  the entries hold.  On 14 or more entries whose dates the host all reads as dates,
  the entries are taken by descending date (a stable sort of the list), and the
  result carries the sum of the first seven counts, the sum of the next seven, a
  class, and a change.  With \<open>c\<close> the change
  \<open>(lastWeek - previousWeek) / previousWeek * 100\<close> in double arithmetic (0 when the
  previous week is 0), the class is increasing when \<open>c\<close> is above 20, decreasing
  when it is below -20, stable otherwise, and the change returned is \<open>k / 100\<close> as
  a double, where \<open>k\<close> is the integer nearest (the upper one of two equally near) to
  the double product \<open>c * 100\<close>.  Each sum is the exact sum whenever that is at most
  \<open>2 ^ 53\<close>.  Sums 140 and 100 give the change 40 and the class increasing.
\<close>

theorem trend_formula:
  "(length ds < 14 \<longrightarrow>
      getTrend dm ho ds =
        \<lparr>trend = Insufficient_data, change = 0, last_week = 0, previous_week = 0\<rparr>) \<and>
   (14 \<le> length ds \<and> valid_dates dm ds \<longrightarrow>
      (\<exists>k. nearest_int
              (js_mul (week_change (js_sum (map ds_count (week1 dm ds)))
                         (js_sum (map ds_count (week2 dm ds)))) 100) k \<and>
           getTrend dm ho ds =
             \<lparr>trend = classify (week_change (js_sum (map ds_count (week1 dm ds)))
                                  (js_sum (map ds_count (week2 dm ds)))),
              change = js_div (of_int k) 100,
              last_week = js_sum (map ds_count (week1 dm ds)),
              previous_week = js_sum (map ds_count (week2 dm ds))\<rparr>)) \<and>
   (valid_dates dm ds \<longrightarrow>
      sortedStats dm ho ds = by_date_desc dm ds \<and>
      sorted_wrt (\<lambda>a b. date_key dm b \<le> date_key dm a) (sortedStats dm ho ds) \<and>
      mset (sortedStats dm ho ds) = mset ds) \<and>
   (lastWeek dm ds \<le> 2 ^ 53 \<longrightarrow> js_sum (map ds_count (week1 dm ds)) = of_nat (lastWeek dm ds)) \<and>
   (previousWeek dm ds \<le> 2 ^ 53 \<longrightarrow>
      js_sum (map ds_count (week2 dm ds)) = of_nat (previousWeek dm ds)) \<and>
   (14 \<le> length ds \<and> valid_dates dm ds \<and> lastWeek dm ds = 140 \<and> previousWeek dm ds = 100 \<longrightarrow>
      getTrend dm ho ds =
        \<lparr>trend = Increasing, change = 40, last_week = 140, previous_week = 100\<rparr>)"
proof -
  let ?C = "week_change (js_sum (map ds_count (week1 dm ds))) (js_sum (map ds_count (week2 dm ds)))"
  have a: "length ds < 14 \<longrightarrow>
      getTrend dm ho ds =
        \<lparr>trend = Insufficient_data, change = 0, last_week = 0, previous_week = 0\<rparr>"
    by (simp add: getTrend_short)
  have b: "14 \<le> length ds \<and> valid_dates dm ds \<longrightarrow>
      (\<exists>k. nearest_int (js_mul ?C 100) k \<and>
           getTrend dm ho ds =
             \<lparr>trend = classify ?C, change = js_div (of_int k) 100,
              last_week = js_sum (map ds_count (week1 dm ds)),
              previous_week = js_sum (map ds_count (week2 dm ds))\<rparr>)"
  proof
    assume h: "14 \<le> length ds \<and> valid_dates dm ds"
    from round2_nearest [of ?C] obtain k where k: "nearest_int (js_mul ?C 100) k"
      "round2 ?C = js_div (of_int k) 100" by blast
    from h have "getTrend dm ho ds =
             \<lparr>trend = classify ?C, change = round2 ?C,
              last_week = js_sum (map ds_count (week1 dm ds)),
              previous_week = js_sum (map ds_count (week2 dm ds))\<rparr>"
      by (intro getTrend_long) simp_all
    with k show "\<exists>k. nearest_int (js_mul ?C 100) k \<and>
           getTrend dm ho ds =
             \<lparr>trend = classify ?C, change = js_div (of_int k) 100,
              last_week = js_sum (map ds_count (week1 dm ds)),
              previous_week = js_sum (map ds_count (week2 dm ds))\<rparr>"
      by (intro exI [of _ k]) simp
  qed
  have c: "valid_dates dm ds \<longrightarrow>
      sortedStats dm ho ds = by_date_desc dm ds \<and>
      sorted_wrt (\<lambda>a b. date_key dm b \<le> date_key dm a) (sortedStats dm ho ds) \<and>
      mset (sortedStats dm ho ds) = mset ds"
  proof
    assume v: "valid_dates dm ds"
    have "mset (by_date_desc dm ds) = mset ds" by (simp add: by_date_desc_def)
    with by_date_desc_sorted [of dm ds]
    show "sortedStats dm ho ds = by_date_desc dm ds \<and>
      sorted_wrt (\<lambda>a b. date_key dm b \<le> date_key dm a) (sortedStats dm ho ds) \<and>
      mset (sortedStats dm ho ds) = mset ds"
      by (simp add: sortedStats_valid [OF v])
  qed
  have l: "lastWeek dm ds \<le> 2 ^ 53 \<longrightarrow>
             js_sum (map ds_count (week1 dm ds)) = of_nat (lastWeek dm ds)"
    by (simp add: js_sum_weeks)
  have p: "previousWeek dm ds \<le> 2 ^ 53 \<longrightarrow>
             js_sum (map ds_count (week2 dm ds)) = of_nat (previousWeek dm ds)"
    by (simp add: js_sum_weeks)
  have e: "14 \<le> length ds \<and> valid_dates dm ds \<and> lastWeek dm ds = 140 \<and>
           previousWeek dm ds = 100 \<longrightarrow>
      getTrend dm ho ds =
        \<lparr>trend = Increasing, change = 40, last_week = 140, previous_week = 100\<rparr>"
  proof
    assume h: "14 \<le> length ds \<and> valid_dates dm ds \<and> lastWeek dm ds = 140 \<and>
               previousWeek dm ds = 100"
    with l p have s: "js_sum (map ds_count (week1 dm ds)) = 140"
      "js_sum (map ds_count (week2 dm ds)) = 100" by simp_all
    have r: "round2 40 = 40"
      using round2_eqI [OF c_140_100(2)] by (simp add: c_140_100(3))
    from h have "getTrend dm ho ds =
             \<lparr>trend = classify ?C, change = round2 ?C,
              last_week = js_sum (map ds_count (week1 dm ds)),
              previous_week = js_sum (map ds_count (week2 dm ds))\<rparr>"
      by (intro getTrend_long) simp_all
    then show "getTrend dm ho ds =
        \<lparr>trend = Increasing, change = 40, last_week = 140, previous_week = 100\<rparr>"
      unfolding s by (simp add: c_140_100(1) r classify_def)
  qed
  from a b c l p e show ?thesis by blast
qed

theorem trend_formula_witness:
  "length days_tie < 14 \<and>
   getTrend jan2024 host_keeps days_tie =
     \<lparr>trend = Insufficient_data, change = 0, last_week = 0, previous_week = 0\<rparr> \<and>
   14 \<le> length days14 \<and> valid_dates jan2024 days14 \<and>
   lastWeek jan2024 days14 = 140 \<and> previousWeek jan2024 days14 = 100 \<and>
   lastWeek jan2024 days14 \<le> 2 ^ 53 \<and> previousWeek jan2024 days14 \<le> 2 ^ 53 \<and>
   js_sum (map ds_count (week1 jan2024 days14)) = 140 \<and>
   js_sum (map ds_count (week2 jan2024 days14)) = 100 \<and>
   nearest_int (js_mul (week_change 140 100) 100) 4000 \<and>
   getTrend jan2024 host_keeps days14 =
     \<lparr>trend = Increasing, change = js_div (of_int 4000) 100, last_week = 140,
      previous_week = 100\<rparr> \<and>
   js_div (of_int 4000) 100 = 40 \<and>
   sortedStats jan2024 host_keeps days14 = by_date_desc jan2024 days14"
proof -
  have a: "length days_tie < 14" "14 \<le> length days14"
    by (simp_all add: days_tie_def days14_def)
  note w = days14_weeks
  then have u: "lastWeek jan2024 days14 \<le> 2 ^ 53" "previousWeek jan2024 days14 \<le> 2 ^ 53"
    by simp_all
  note v = jan_valid(1)
  from trend_formula [of days_tie jan2024 host_keeps] a(1)
  have t1: "getTrend jan2024 host_keeps days_tie =
     \<lparr>trend = Insufficient_data, change = 0, last_week = 0, previous_week = 0\<rparr>"
    by blast
  note t = trend_formula [of days14 jan2024 host_keeps]
  from t u have "js_sum (map ds_count (week1 jan2024 days14)) = of_nat (lastWeek jan2024 days14)"
    "js_sum (map ds_count (week2 jan2024 days14)) = of_nat (previousWeek jan2024 days14)"
    by blast+
  then have t3: "js_sum (map ds_count (week1 jan2024 days14)) = 140"
    "js_sum (map ds_count (week2 jan2024 days14)) = 100"
    by (simp_all add: w)
  from t a(2) v obtain k where k:
    "nearest_int (js_mul (week_change (js_sum (map ds_count (week1 jan2024 days14)))
                         (js_sum (map ds_count (week2 jan2024 days14)))) 100) k"
    "getTrend jan2024 host_keeps days14 =
             \<lparr>trend = classify (week_change (js_sum (map ds_count (week1 jan2024 days14)))
                                  (js_sum (map ds_count (week2 jan2024 days14)))),
              change = js_div (of_int k) 100,
              last_week = js_sum (map ds_count (week1 jan2024 days14)),
              previous_week = js_sum (map ds_count (week2 jan2024 days14))\<rparr>"
    by blast
  have q: "nearest_int (js_mul (week_change 140 100) 100) 4000"
    using c_140_100 by simp
  from k(1) have "nearest_int (js_mul (week_change 140 100) 100) k" unfolding t3 .
  from nearest_int_unique [OF this q] have k4: "k = 4000" .
  have t2: "getTrend jan2024 host_keeps days14 =
     \<lparr>trend = Increasing, change = js_div (of_int 4000) 100, last_week = 140,
      previous_week = 100\<rparr>"
    using k(2) unfolding t3 k4 by (simp add: c_140_100(1) classify_def)
  from t v have t4: "sortedStats jan2024 host_keeps days14 = by_date_desc jan2024 days14"
    by blast
  have t5: "js_div (of_int 4000) 100 = 40" using c_140_100(3) by simp
  from a w u v t1 t2 t3 t4 t5 q show ?thesis by simp
qed

end
